theory Spec2Isabelle
  imports Main "HOL-Library.AList"
begin

unbundle bit_operations_syntax

section \<open>Errors\<close>

text \<open>
  The exceptions the layout engine can raise.  The \<open>RuntimeError\<close>s of the source
  are kept apart by their message:
  \<^item> \<open>InvalidModule n\<close>: "Module 'n' has invalid heigth / width / X position / Y position",
  \<^item> \<open>CouldNotPlace n\<close>: "Module 'n' couldn't be placed",
  \<^item> \<open>InvalidPinLayout\<close>: "Invalid Pin Layout",
  \<^item> \<open>TooManyTracks\<close>: "Too many tracks to fit in too small area ...",
  \<^item> \<open>PinTrackMismatch\<close>: "Mismatch pin/track list".

  The others are the exceptions of the Python runtime itself.
\<close>

datatype error =
    InvalidModule string
  | CouldNotPlace string
  | InvalidPinLayout
  | TooManyTracks
  | PinTrackMismatch
  | NameError
  | KeyError
  | IndexError
  | ZeroDivisionError

section \<open>Module placer (logical grid)\<close>

text \<open>\<open>class ModuleSlot\<close>: a missing \<open>x\<close> or \<open>y\<close> of the configuration is \<open>None\<close>.\<close>

record ModuleSlot =
  name :: string
  pos_x :: "int option"
  pos_y :: "int option"
  width :: int
  height :: int

text \<open>
  The state of a \<open>ModulePlacer\<close>: the dictionary \<open>grid\<close> from anchor to module, in
  insertion order, and the set \<open>grid_free\<close> of free cells.
\<close>

record placer =
  grid :: "((int \<times> int) \<times> ModuleSlot) list"
  grid_free :: "(int \<times> int) set"

text \<open>\<open>range(n)\<close> of Python, empty when \<open>n \<le> 0\<close>.\<close>

definition py_range :: "int \<Rightarrow> int list" where
  "py_range n = [0..n - 1]"

text \<open>
  \<open>gen_grid\<close>: for every row \<open>y\<close> and every \<open>x\<close> below half of the grid width, the cells
  \<open>(x, y)\<close> and \<open>(x + 16, y)\<close> are free.  \<open>gx\<close> and \<open>gy\<close> are \<open>cfg.tt.grid.x\<close> and
  \<open>cfg.tt.grid.y\<close>.
\<close>

definition gen_grid :: "int \<Rightarrow> int \<Rightarrow> placer" where
  "gen_grid gx gy =
     \<lparr> grid = [],
       grid_free =
         fold (\<lambda>y free. fold (\<lambda>x free. insert (x + 16, y) (insert (x, y) free)) (py_range (gx div 2)) free)
           (py_range gy) {} \<rparr>"

text \<open>
  The checks of \<open>load_modules\<close> on one module; \<open>None\<close> when the module passes.
\<close>

definition check_module :: "int \<Rightarrow> int \<Rightarrow> ModuleSlot \<Rightarrow> error option" where
  "check_module gx gy m =
     (if height m \<notin> set [1, 2] then Some (InvalidModule (name m))
      else if width m \<notin> set [1, 2, 4, 8] then Some (InvalidModule (name m))
      else if (case pos_x m of None \<Rightarrow> False
               | Some x \<Rightarrow> x < 0 \<or> x \<ge> 32 \<or> x mod 16 > gx div 2) then Some (InvalidModule (name m))
      else if (case pos_y m of None \<Rightarrow> False
               | Some y \<Rightarrow> y < 0 \<or> y \<ge> gy) then Some (InvalidModule (name m))
      else None)"

fun load_modules :: "int \<Rightarrow> int \<Rightarrow> ModuleSlot list \<Rightarrow> error + ModuleSlot list" where
  "load_modules gx gy [] = Inr []"
| "load_modules gx gy (mc # data) =
     (case check_module gx gy mc of
        Some e \<Rightarrow> Inl e
      | None \<Rightarrow> (case load_modules gx gy data of Inl e \<Rightarrow> Inl e | Inr ms \<Rightarrow> Inr (mc # ms)))"

text \<open>The cells a module of the size of \<open>m\<close> covers from the anchor \<open>(x, y)\<close>, in the order
  of the two nested loops (rows outside, columns inside).\<close>

definition sites :: "ModuleSlot \<Rightarrow> int \<Rightarrow> int \<Rightarrow> (int \<times> int) list" where
  "sites m x y = concat (map (\<lambda>oy. map (\<lambda>ox. (x + ox, y + oy)) (py_range (width m))) (py_range (height m)))"

text \<open>\<open>_site_suitable\<close>: all cells free, an odd row for a module higher than one row, and
  no crossing of the middle boundary (bit 4 of the column) for a module wider than one
  column.\<close>

definition site_suitable :: "placer \<Rightarrow> ModuleSlot \<Rightarrow> int \<Rightarrow> int \<Rightarrow> bool" where
  "site_suitable s m x y =
     (if \<not> list_all (\<lambda>c. c \<in> grid_free s) (sites m x y) then False
      else if height m > 1 \<and> y AND 1 = 0 then False
      else if width m > 1 \<and> (x XOR (x + width m - 1)) AND 16 \<noteq> 0 then False
      else True)"

text \<open>\<open>_find_xy_for_module\<close>: the candidate anchors in scan order, row by row, the left
  half before the right half; the first suitable one is returned.\<close>

definition scan_xy :: "int \<Rightarrow> int \<Rightarrow> (int \<times> int) list" where
  "scan_xy gx gy =
     concat (map (\<lambda>y. map (\<lambda>x. (x, y)) (py_range (gx div 2)) @ map (\<lambda>x. (x + 16, y)) (py_range (gx div 2)))
       (py_range gy))"

definition find_xy_for_module :: "int \<Rightarrow> int \<Rightarrow> placer \<Rightarrow> ModuleSlot \<Rightarrow> (int \<times> int) option" where
  "find_xy_for_module gx gy s m = List.find (\<lambda>(x, y). site_suitable s m x y) (scan_xy gx gy)"

text \<open>\<open>_find_y_for_module\<close>, called with the fixed column \<open>x\<close> of the module.\<close>

definition find_y_for_module :: "int \<Rightarrow> placer \<Rightarrow> ModuleSlot \<Rightarrow> int \<Rightarrow> (int \<times> int) option" where
  "find_y_for_module gy s m x =
     map_option (\<lambda>y. (x, y)) (List.find (\<lambda>y. site_suitable s m x y) (py_range gy))"

text \<open>
  \<open>_find_x_for_module\<close>, called with the fixed row \<open>y\<close> of the module.  Both \<open>return\<close>
  statements of the loops read a variable \<open>y\<close> that the function never binds (and the
  source file has no global of that name), so the hit raises \<open>NameError\<close>; only the
  final \<open>return None, None\<close> returns.
\<close>

definition find_x_for_module :: "int \<Rightarrow> placer \<Rightarrow> ModuleSlot \<Rightarrow> int \<Rightarrow> error + (int \<times> int) option" where
  "find_x_for_module gx s m y =
     (case List.find (\<lambda>x. site_suitable s m x y) (py_range (gx div 2)) of
        Some x \<Rightarrow> Inl NameError
      | None \<Rightarrow>
          (case List.find (\<lambda>x. site_suitable s m (x + 16) y) (py_range (gx div 2)) of
             Some x \<Rightarrow> Inl NameError
           | None \<Rightarrow> Inr None))"

text \<open>\<open>grid_free.remove\<close> on each covered cell; removing an absent cell raises \<open>KeyError\<close>.\<close>

fun remove_sites :: "(int \<times> int) list \<Rightarrow> (int \<times> int) set \<Rightarrow> error + (int \<times> int) set" where
  "remove_sites [] free = Inr free"
| "remove_sites (c # cs) free = (if c \<in> free then remove_sites cs (free - {c}) else Inl KeyError)"

text \<open>\<open>_place_module\<close>.  The module stored in the grid is the object whose \<open>pos_x\<close> and
  \<open>pos_y\<close> have just been set.\<close>

definition place_module :: "int \<Rightarrow> int \<Rightarrow> placer \<Rightarrow> ModuleSlot \<Rightarrow> error + placer" where
  "place_module gx gy s m =
     (case (case (pos_x m, pos_y m) of
              (None, None) \<Rightarrow> Inr (find_xy_for_module gx gy s m)
            | (None, Some py) \<Rightarrow> find_x_for_module gx s m py
            | (Some px, None) \<Rightarrow> Inr (find_y_for_module gy s m px)
            | (Some px, Some py) \<Rightarrow> Inr (if site_suitable s m px py then Some (px, py) else None)) of
        Inl e \<Rightarrow> Inl e
      | Inr None \<Rightarrow> Inl (CouldNotPlace (name m))
      | Inr (Some (x, y)) \<Rightarrow>
          (case remove_sites (sites m x y) (grid_free s) of
             Inl e \<Rightarrow> Inl e
           | Inr free \<Rightarrow>
               Inr \<lparr> grid = AList.update (x, y) (m\<lparr>pos_x := Some x, pos_y := Some y\<rparr>) (grid s),
                     grid_free = free \<rparr>))"

text \<open>
  \<open>sorted(mods, key=lambda m: (m.height, m.width), reverse=True)\<close>: descending in the
  pair (height, width), and stable: modules with the same key keep their order.
\<close>

definition key_le :: "ModuleSlot \<Rightarrow> ModuleSlot \<Rightarrow> bool" where
  "key_le a b = (height a < height b \<or> (height a = height b \<and> width a \<le> width b))"

fun insort_rev :: "ModuleSlot \<Rightarrow> ModuleSlot list \<Rightarrow> ModuleSlot list" where
  "insort_rev m [] = [m]"
| "insort_rev m (b # bs) = (if key_le b m then m # b # bs else b # insort_rev m bs)"

definition sorted_rev :: "ModuleSlot list \<Rightarrow> ModuleSlot list" where
  "sorted_rev ms = foldr insort_rev ms []"

fun place_each :: "int \<Rightarrow> int \<Rightarrow> placer \<Rightarrow> ModuleSlot list \<Rightarrow> error + placer" where
  "place_each gx gy s [] = Inr s"
| "place_each gx gy s (m # ms) =
     (case place_module gx gy s m of Inl e \<Rightarrow> Inl e | Inr s' \<Rightarrow> place_each gx gy s' ms)"

definition place_modules_group :: "int \<Rightarrow> int \<Rightarrow> placer \<Rightarrow> ModuleSlot list \<Rightarrow> error + placer" where
  "place_modules_group gx gy s mods = place_each gx gy s (sorted_rev mods)"

text \<open>\<open>place_modules\<close>: fully fixed modules first, then those with one fixed coordinate,
  then the free ones.\<close>

definition full_placed :: "ModuleSlot list \<Rightarrow> ModuleSlot list" where
  "full_placed ms = filter (\<lambda>m. pos_x m \<noteq> None \<and> pos_y m \<noteq> None) ms"

definition semi_placed :: "ModuleSlot list \<Rightarrow> ModuleSlot list" where
  "semi_placed ms =
     filter (\<lambda>m. \<not> (pos_x m \<noteq> None \<and> pos_y m \<noteq> None) \<and> (pos_x m \<noteq> None \<or> pos_y m \<noteq> None)) ms"

definition auto_placed :: "ModuleSlot list \<Rightarrow> ModuleSlot list" where
  "auto_placed ms =
     filter (\<lambda>m. \<not> (pos_x m \<noteq> None \<and> pos_y m \<noteq> None) \<and> \<not> (pos_x m \<noteq> None \<or> pos_y m \<noteq> None)) ms"

definition place_modules :: "int \<Rightarrow> int \<Rightarrow> placer \<Rightarrow> ModuleSlot list \<Rightarrow> error + placer" where
  "place_modules gx gy s ms =
     (case place_modules_group gx gy s (full_placed ms) of
        Inl e \<Rightarrow> Inl e
      | Inr s1 \<Rightarrow>
          (case place_modules_group gx gy s1 (semi_placed ms) of
             Inl e \<Rightarrow> Inl e
           | Inr s2 \<Rightarrow> place_modules_group gx gy s2 (auto_placed ms)))"

text \<open>\<open>placer.grid.get((x, y))\<close>, as the layout reads the placement.\<close>

definition grid_get :: "placer \<Rightarrow> int \<times> int \<Rightarrow> ModuleSlot option" where
  "grid_get s a = map_of (grid s) a"

text \<open>The constructor of \<open>ModulePlacer\<close>: \<open>gen_grid\<close>, \<open>load_modules\<close>, \<open>place_modules\<close>.
  \<open>data\<close> is the list of module descriptions read from the module file.\<close>

definition ModulePlacer :: "int \<Rightarrow> int \<Rightarrow> ModuleSlot list \<Rightarrow> error + placer" where
  "ModulePlacer gx gy data =
     (case load_modules gx gy data of
        Inl e \<Rightarrow> Inl e
      | Inr ms \<Rightarrow> place_modules gx gy (gen_grid gx gy) ms)"

section \<open>Layout engine: pin layouts and tracks\<close>

subsection \<open>Pin layouts\<close>

text \<open>
  The second component \<open>c\<close> of a pin-layout entry \<open>(n, c)\<close>: \<open>None\<close>, an \<open>int\<close>, a
  \<open>tuple\<close> (of integers, of any length), or a value of any other type.  The first
  component is the signal name, \<open>None\<close> for a skip.
\<close>

datatype count = CNone | CInt int | CTuple "int list" | COther

type_synonym ply = "(string option \<times> count) list"

text \<open>\<open>str(i)\<close> for an integer: decimal digits, with a minus sign when negative.\<close>

fun str_nat :: "nat \<Rightarrow> string" where
  "str_nat n = (if n < 10 then [''0123456789'' ! n] else str_nat (n div 10) @ [''0123456789'' ! (n mod 10)])"

declare str_nat.simps [simp del]

definition py_str :: "int \<Rightarrow> string" where
  "py_str i = (if i < 0 then CHR ''-'' # str_nat (nat (- i)) else str_nat (nat i))"

text \<open>\<open>range(start, stop, -1)\<close>: from \<open>start\<close> down to \<open>stop + 1\<close>.\<close>

function range_down :: "int \<Rightarrow> int \<Rightarrow> int list" where
  "range_down i stop = (if stop < i then i # range_down (i - 1) stop else [])"
  by pat_completeness auto
termination
  by (relation "measure (\<lambda>(i, stop). nat (i - stop))") auto

declare range_down.simps [simp del]

text \<open>The body of the loop of \<open>_ply_expand\<close> on one entry: \<open>rv\<close> grows by one
  \<open>append\<close> at a time.  Reading \<open>c[1]\<close> or \<open>c[0]\<close> of a tuple that is too short raises
  \<open>IndexError\<close>.\<close>

definition pin_name :: "string \<Rightarrow> int \<Rightarrow> string" where
  "pin_name n i = n @ ''['' @ py_str i @ '']''"

definition expand_entry :: "string option list \<Rightarrow> string option \<times> count \<Rightarrow> error + string option list" where
  "expand_entry rv e =
     (case e of (n, c) \<Rightarrow>
       (case c of
          CNone \<Rightarrow>
            (case n of None \<Rightarrow> Inr (rv @ [None]) | Some nm \<Rightarrow> Inr (rv @ [Some nm]))
        | CInt k \<Rightarrow>
            (case n of
               None \<Rightarrow> Inr (fold (\<lambda>i rv. rv @ [None]) (py_range k) rv)
             | Some nm \<Rightarrow> Inr (fold (\<lambda>i rv. rv @ [Some (pin_name nm i)]) (range_down (k - 1) (- 1)) rv))
        | CTuple t \<Rightarrow>
            (case n of
               None \<Rightarrow>
                 (if length t < 2 then Inl IndexError
                  else Inr (fold (\<lambda>i rv. rv @ [None]) (py_range (t ! 1)) rv))
             | Some nm \<Rightarrow>
                 (if length t < 2 then Inl IndexError
                  else Inr (fold (\<lambda>i rv. rv @ [Some (pin_name nm i)])
                              (range_down (t ! 0 + t ! 1 - 1) (t ! 0 - 1)) rv)))
        | COther \<Rightarrow> Inl InvalidPinLayout))"

fun ply_expand_loop :: "string option list \<Rightarrow> ply \<Rightarrow> error + string option list" where
  "ply_expand_loop rv [] = Inr rv"
| "ply_expand_loop rv (e # ply) =
     (case expand_entry rv e of Inl err \<Rightarrow> Inl err | Inr rv' \<Rightarrow> ply_expand_loop rv' ply)"

definition ply_expand :: "ply \<Rightarrow> error + string option list" where
  "ply_expand ply = ply_expand_loop [] ply"

subsection \<open>Tracks\<close>

text \<open>
  The loop \<open>while p < end: tracks.append(p); p += t_pitch\<close>.  With a pitch that is not
  positive it may run forever; not returning is \<open>None\<close>.
\<close>

partial_function (option) track_loop :: "int \<Rightarrow> int \<Rightarrow> int \<Rightarrow> int list \<Rightarrow> int list option" where
  "track_loop t_pitch endp p tracks =
     (if p < endp then track_loop t_pitch endp (p + t_pitch) (tracks @ [p]) else Some tracks)"

declare track_loop.simps [code]

text \<open>The first candidate track, \<open>(((start - t_offset) // t_pitch) * t_pitch) + t_offset\<close>.\<close>

definition first_track :: "int \<Rightarrow> int \<Rightarrow> int \<Rightarrow> int" where
  "first_track t_offset t_pitch start = ((start - t_offset) div t_pitch) * t_pitch + t_offset"

text \<open>\<open>Generate tracks in the interval\<close>: the candidate tracks, for a pitch other than
  zero.\<close>

definition gen_tracks :: "int \<Rightarrow> int \<Rightarrow> int \<Rightarrow> int \<Rightarrow> int list option" where
  "gen_tracks t_offset t_pitch start endp =
     track_loop t_pitch endp (first_track t_offset t_pitch start) []"

text \<open>
  The slice \<open>xs[start:stop:step]\<close> of Python for \<open>step \<noteq> 0\<close>: negative bounds count from
  the end, bounds out of range are clamped, and the result has the elements at
  \<open>start, start + step, ...\<close> before \<open>stop\<close>.
\<close>

definition slice_adjust :: "int \<Rightarrow> int \<Rightarrow> int \<Rightarrow> int" where
  "slice_adjust len step i =
     (if i < 0 then (if i + len < 0 then (if step < 0 then - 1 else 0) else i + len)
      else if i \<ge> len then (if step < 0 then len - 1 else len)
      else i)"

definition slice_length :: "int \<Rightarrow> int \<Rightarrow> int \<Rightarrow> int" where
  "slice_length start stop step =
     (if step < 0 then (if stop < start then (start - stop - 1) div (- step) + 1 else 0)
      else (if start < stop then (stop - start - 1) div step + 1 else 0))"

definition py_slice :: "'a list \<Rightarrow> int \<Rightarrow> int \<Rightarrow> int \<Rightarrow> 'a list" where
  "py_slice xs start stop step =
     (let len = int (length xs);
          start' = slice_adjust len step start;
          stop' = slice_adjust len step stop
      in map (\<lambda>k. xs ! nat (start' + int k * step)) [0..<nat (slice_length start' stop' step)])"

text \<open>\<open>Pick step if need be\<close>: a step that is not positive is replaced by
  \<open>(len(tracks) - 1) // (n_pins - 1)\<close>, which raises for \<open>n_pins = 1\<close>.\<close>

definition pick_step :: "int list \<Rightarrow> int \<Rightarrow> int \<Rightarrow> error + int" where
  "pick_step tracks n_pins step =
     (if step \<le> 0 then
        (if n_pins - 1 = 0 then Inl ZeroDivisionError
         else Inr ((int (length tracks) - 1) div (n_pins - 1)))
      else Inr step)"

text \<open>\<open>Pick the center tracks\<close>: the rest of \<open>_ply_distribute\<close>, from the candidate
  tracks on.\<close>

definition pick_tracks :: "int list \<Rightarrow> int \<Rightarrow> int \<Rightarrow> error + int list" where
  "pick_tracks tracks n_pins step0 =
     (case pick_step tracks n_pins step0 of
        Inl e \<Rightarrow> Inl e
      | Inr step \<Rightarrow>
          (if step = 0 then Inl TooManyTracks
           else
             (let tracks_needed = (n_pins - 1) * step + 1;
                  i_start = (int (length tracks) - tracks_needed) div 2;
                  i_end = i_start + tracks_needed
              in Inr (py_slice tracks i_start i_end step))))"

text \<open>
  \<open>_ply_distribute\<close>.  \<open>t_offset\<close> and \<open>t_pitch\<close> are the values
  \<open>cfg.pdk.tracks[layer][axis].offset\<close> and \<open>.pitch\<close> that the function reads from the
  configuration.  A pitch of zero raises in the first division.
\<close>

definition ply_distribute ::
    "int \<Rightarrow> int \<Rightarrow> int \<Rightarrow> int \<Rightarrow> int \<Rightarrow> int \<Rightarrow> (error + int list) option" where
  "ply_distribute t_offset t_pitch n_pins start endp step =
     (if t_pitch = 0 then Some (Inl ZeroDivisionError)
      else
        (case gen_tracks t_offset t_pitch start endp of
           None \<Rightarrow> None
         | Some tracks \<Rightarrow> Some (pick_tracks tracks n_pins step)))"

text \<open>\<open>dict(pairs)\<close>: a later pair with the same key replaces the value of the earlier
  one, at the position of the earlier one.\<close>

definition py_dict :: "('k \<times> 'v) list \<Rightarrow> ('k \<times> 'v) list" where
  "py_dict pairs = fold (\<lambda>(k, v) d. AList.update k v d) pairs []"

text \<open>\<open>_ply_finalize\<close>.\<close>

definition named_pairs :: "string option list \<Rightarrow> int list \<Rightarrow> (string \<times> int) list" where
  "named_pairs pins tracks =
     List.map_filter (\<lambda>(p, t). case p of None \<Rightarrow> None | Some n \<Rightarrow> Some (n, t)) (zip pins tracks)"

definition ply_finalize :: "string option list \<Rightarrow> int list \<Rightarrow> error + (string \<times> int) list" where
  "ply_finalize pins tracks =
     (if length pins \<noteq> length tracks then Inl PinTrackMismatch
      else Inr (py_dict (named_pairs pins tracks)))"

subsection \<open>What the expansion of a pin layout is to produce\<close>

text \<open>
  The names of a bus: the base name with a bracketed index, the indices running from
  \<open>off + len - 1\<close> down to \<open>off\<close>.
\<close>

definition index_names :: "string \<Rightarrow> int \<Rightarrow> int \<Rightarrow> string option list" where
  "index_names nm off len = map (\<lambda>i. Some (pin_name nm i)) (rev [off..off + len - 1])"

text \<open>
  The expansion of one entry as the specification words it: one name for a scalar, the
  indices \<open>n - 1 \<dots> 0\<close> for a bus of width \<open>n\<close>, the indices
  \<open>off + len - 1 \<dots> off\<close> for a sub-range \<open>(off, len)\<close>, and placeholders for a skip.
\<close>

fun expand_spec :: "string option \<times> count \<Rightarrow> string option list" where
  "expand_spec (Some nm, CNone) = [Some nm]"
| "expand_spec (Some nm, CInt k) = index_names nm 0 k"
| "expand_spec (Some nm, CTuple [off, len]) = index_names nm off len"
| "expand_spec (None, CNone) = [None]"
| "expand_spec (None, CInt k) = replicate (nat k) None"
| "expand_spec (None, CTuple [off, len]) = replicate (nat len) None"
| "expand_spec _ = []"

text \<open>The entries of the three forms: scalar, integer, and two-integer range.\<close>

fun well_formed :: "string option \<times> count \<Rightarrow> bool" where
  "well_formed (n, CNone) = True"
| "well_formed (n, CInt k) = True"
| "well_formed (n, CTuple [off, len]) = True"
| "well_formed _ = False"

text \<open>
  The width of an entry, the total width of a pin layout, and the number of its skip
  slots (the slots of the entries without a name).
\<close>

fun entry_width :: "string option \<times> count \<Rightarrow> nat" where
  "entry_width (n, CNone) = 1"
| "entry_width (n, CInt k) = nat k"
| "entry_width (n, CTuple [off, len]) = nat len"
| "entry_width _ = 0"

definition total_width :: "ply \<Rightarrow> nat" where
  "total_width ply = sum_list (map entry_width ply)"

definition skip_slots :: "ply \<Rightarrow> nat" where
  "skip_slots ply = sum_list (map entry_width (filter (\<lambda>e. fst e = None) ply))"

text \<open>The names of an expanded pin sequence, without the placeholders.\<close>

definition pin_names :: "string option list \<Rightarrow> string list" where
  "pin_names pins = List.map_filter (\<lambda>p. p) pins"

subsection \<open>The candidate tracks of a positive pitch\<close>

text \<open>
  The tracks \<open>p, p + t_pitch, \<dots>\<close> below \<open>endp\<close>, for a positive pitch: what the
  track loop computes when it terminates.
\<close>

function tracks_from :: "int \<Rightarrow> int \<Rightarrow> int \<Rightarrow> int list" where
  "tracks_from t_pitch endp p =
     (if 0 < t_pitch \<and> p < endp then p # tracks_from t_pitch endp (p + t_pitch) else [])"
  by pat_completeness auto
termination
  by (relation "measure (\<lambda>(t_pitch, endp, p). nat (endp - p))") auto

declare tracks_from.simps [simp del]

subsection \<open>Footprints and the invariant of the placer\<close>

text \<open>
  The footprint of a module of the size of \<open>m\<close> at the anchor \<open>(x, y)\<close>: the cells
  \<open>(x + i, y + j)\<close> with \<open>0 \<le> i < w\<close> and \<open>0 \<le> j < h\<close>.
\<close>

definition footprint :: "ModuleSlot \<Rightarrow> int \<Rightarrow> int \<Rightarrow> (int \<times> int) set" where
  "footprint m x y = {(x + i, y + j) | i j. 0 \<le> i \<and> i < width m \<and> 0 \<le> j \<and> j < height m}"

text \<open>
  The cells of a grid of \<open>gx\<close> columns and \<open>gy\<close> rows: two halves of \<open>gx div 2\<close>
  columns, the right one starting at column 16.
\<close>

definition grid_cells :: "int \<Rightarrow> int \<Rightarrow> (int \<times> int) set" where
  "grid_cells gx gy =
     {(x, y). 0 \<le> y \<and> y < gy \<and> (0 \<le> x \<and> x < gx div 2 \<or> 16 \<le> x \<and> x < 16 + gx div 2)}"

text \<open>The footprint of an entry of the grid dictionary.\<close>

definition entry_cells :: "(int \<times> int) \<times> ModuleSlot \<Rightarrow> (int \<times> int) set" where
  "entry_cells e = footprint (snd e) (fst (fst e)) (snd (fst e))"

text \<open>
  The invariant of the placer: the free cells are cells of the grid, the anchors are
  pairwise distinct, every placed module covers cells of the grid that are no longer free,
  its anchor among them, carries its anchor as its position, and sits on an odd row when
  it is higher than one row; and the footprints of two placed modules are disjoint.
\<close>

definition placement_inv :: "(int \<times> int) set \<Rightarrow> placer \<Rightarrow> bool" where
  "placement_inv cells s \<longleftrightarrow>
     grid_free s \<subseteq> cells \<and>
     distinct (map fst (grid s)) \<and>
     (\<forall>e \<in> set (grid s).
        entry_cells e \<subseteq> cells \<and> entry_cells e \<inter> grid_free s = {} \<and>
        fst e \<in> entry_cells e \<and>
        pos_x (snd e) = Some (fst (fst e)) \<and> pos_y (snd e) = Some (snd (fst e)) \<and>
        (1 < height (snd e) \<longrightarrow> odd (snd (fst e)))) \<and>
     (\<forall>e1 \<in> set (grid s). \<forall>e2 \<in> set (grid s). e1 \<noteq> e2 \<longrightarrow> entry_cells e1 \<inter> entry_cells e2 = {})"

text \<open>A module that has passed the size checks of \<open>load_modules\<close> covers at least one cell.\<close>

definition sized :: "ModuleSlot \<Rightarrow> bool" where
  "sized m \<longleftrightarrow> 1 \<le> width m \<and> 1 \<le> height m"


section \<open>The placer on concrete module lists\<close>

text \<open>
  Claim C1, as stated: on a \<open>4 \<times> 2\<close> grid, the free modules A and B of width 2 and
  height 1 end at the anchors \<open>(0, 0)\<close> and \<open>(2, 0)\<close>.  The code does not place anything
  at \<open>(2, 0)\<close>: the columns of the grid are \<open>0, 1\<close> (left half) and \<open>16, 17\<close> (right
  half), and the cell \<open>(2, 0)\<close> does not exist.
\<close>

theorem C1_no_module_at_2_0:
  "map_sum id (\<lambda>s. grid_get s (2, 0))
     (ModulePlacer 4 2
        [\<lparr>name = ''A'', pos_x = None, pos_y = None, width = 2, height = 1\<rparr>,
         \<lparr>name = ''B'', pos_x = None, pos_y = None, width = 2, height = 1\<rparr>]) = Inr None"
  by code_simp

text \<open>
  Claim C1, amended: on a \<open>4 \<times> 2\<close> grid, the free modules A and B of width 2 and
  height 1 are both placed in scan order (row by row, left half before right half): A at
  the anchor \<open>(0, 0)\<close>, and B at the anchor \<open>(16, 0)\<close>, the first column of the right
  half of row 0, which is the first free width-2 site after A.
\<close>

theorem C1_scenario_placement:
  "map_sum id grid
     (ModulePlacer 4 2
        [\<lparr>name = ''A'', pos_x = None, pos_y = None, width = 2, height = 1\<rparr>,
         \<lparr>name = ''B'', pos_x = None, pos_y = None, width = 2, height = 1\<rparr>]) =
   Inr [((0, 0), \<lparr>name = ''A'', pos_x = Some 0, pos_y = Some 0, width = 2, height = 1\<rparr>),
        ((16, 0), \<lparr>name = ''B'', pos_x = Some 16, pos_y = Some 0, width = 2, height = 1\<rparr>)]"
  by code_simp

text \<open>
  Claim C3: a module with a fixed row and a free column is recorded at the first suitable
  column of its row.  The code does not get that far: on a \<open>4 \<times> 2\<close> grid, a module of
  one cell with \<open>y = 0\<close> and no \<open>x\<close> has the suitable site \<open>(0, 0)\<close>, and the run ends
  with \<open>NameError\<close> where \<open>_find_x_for_module\<close> returns the hit.
\<close>

theorem C3_fixed_y_raises_NameError:
  "ModulePlacer 4 2 [\<lparr>name = ''A'', pos_x = None, pos_y = Some 0, width = 1, height = 1\<rparr>]
     = Inl NameError"
  by code_simp

section \<open>Candidate tracks\<close>

text \<open>
  Claim C4: the first candidate track is never below \<open>start\<close>.  With the track offset
  460 and pitch 920, the interval from 0 to 2000 gets the candidates \<open>-460, 460, 1380\<close>:
  the first one lies below \<open>start = 0\<close>, outside of the interval.
\<close>

theorem C4_first_candidate_below_start:
  "gen_tracks 460 920 0 2000 = Some [- 460, 460, 1380]"
  by code_simp

text \<open>
  Claim C2: every coordinate that the distribution returns lies inside \<open>[start, end)\<close>.
  With the track offset 460 and pitch 920, three pins in the interval from 0 to 2000 and
  a computed step (which is 1), the distribution returns \<open>-460, 460, 1380\<close>, and
  \<open>-460\<close> is not in the interval.
\<close>

theorem C2_coordinate_below_start:
  "ply_distribute 460 920 3 0 2000 0 = Some (Inr [- 460, 460, 1380])"
  by code_simp

section \<open>Expansion of pin layouts\<close>

lemma fold_append_one: "fold (\<lambda>i rv. rv @ [f i]) xs rv = rv @ map f xs"
  by (induction xs arbitrary: rv) simp_all

lemma range_down_upto: "range_down i stop = rev [stop + 1..i]"
proof (induction i stop rule: range_down.induct)
  case (1 i stop)
  show ?case
  proof (cases "stop < i")
    case True
    then have "[stop + 1..i] = [stop + 1..i - 1] @ [i]"
      by (simp add: upto_rec2)
    with True 1 show ?thesis
      by (subst range_down.simps) simp
  next
    case False
    then show ?thesis
      by (subst range_down.simps) simp
  qed
qed

lemma map_const_upto: "map (\<lambda>i. c) [0..k - 1] = replicate (nat k) c"
  by (simp add: map_replicate_const)

lemma expand_entry_spec:
  "well_formed e \<Longrightarrow> expand_entry rv e = Inr (rv @ expand_spec e)"
proof (cases e)
  case (Pair n c)
  assume wf: "well_formed e"
  show ?thesis
  proof (cases c)
    case CNone
    with Pair show ?thesis by (cases n) (simp_all add: expand_entry_def)
  next
    case (CInt k)
    with Pair show ?thesis
      by (cases n)
        (simp_all add: expand_entry_def fold_append_one range_down_upto py_range_def
          map_const_upto index_names_def)
  next
    case (CTuple t)
    from wf Pair CTuple have "well_formed (n, CTuple t)" by simp
    then obtain off len where t: "t = [off, len]"
      by (cases "(n, CTuple t)" rule: well_formed.cases) auto
    with Pair CTuple show ?thesis
      by (cases n)
        (simp_all add: expand_entry_def fold_append_one range_down_upto py_range_def
          map_const_upto index_names_def)
  next
    case COther
    with wf Pair show ?thesis by simp
  qed
qed

lemma ply_expand_loop_spec:
  "list_all well_formed ply \<Longrightarrow> ply_expand_loop rv ply = Inr (rv @ concat (map expand_spec ply))"
  by (induction ply arbitrary: rv) (simp_all add: expand_entry_spec)

text \<open>
  Claim C7: the expansion of a pin layout is the concatenation, in order, of the
  expansions of its entries, each as \<^const>\<open>expand_spec\<close> gives it: one name for a scalar,
  the bracketed indices \<open>n - 1\<close> down to 0 for a bus of width \<open>n\<close>, the indices
  \<open>off + len - 1\<close> down to \<open>off\<close> for a sub-range, and placeholders for a skip.  In
  particular the layout \<open>[("a", None), ("b", 3), (None, 2)]\<close> expands to
  \<open>["a", "b[2]", "b[1]", "b[0]", None, None]\<close>.
\<close>

theorem C7_ply_expand_entries:
  "(list_all well_formed ply \<longrightarrow> ply_expand ply = Inr (concat (map expand_spec ply))) \<and>
   ply_expand [(Some ''a'', CNone), (Some ''b'', CInt 3), (None, CInt 2)] =
     Inr [Some ''a'', Some ''b[2]'', Some ''b[1]'', Some ''b[0]'', None, None]"
proof
  show "list_all well_formed ply \<longrightarrow> ply_expand ply = Inr (concat (map expand_spec ply))"
    by (simp add: ply_expand_def ply_expand_loop_spec)
  show "ply_expand [(Some ''a'', CNone), (Some ''b'', CInt 3), (None, CInt 2)] =
     Inr [Some ''a'', Some ''b[2]'', Some ''b[1]'', Some ''b[0]'', None, None]"
    by code_simp
qed

text \<open>The theorem at a layout with a sub-range, a skip and a bus.\<close>

theorem C7_ply_expand_entries_witness:
  "ply_expand [(Some ''x'', CTuple [4, 2]), (None, CTuple [0, 1]), (Some ''y'', CInt 2)] =
     Inr [Some ''x[5]'', Some ''x[4]'', None, Some ''y[1]'', Some ''y[0]'']"
proof -
  have wf: "list_all well_formed [(Some ''x'', CTuple [4, 2]), (None, CTuple [0, 1]), (Some ''y'', CInt 2)]"
    by simp
  have ev: "concat (map expand_spec [(Some ''x'', CTuple [4, 2]), (None, CTuple [0, 1]), (Some ''y'', CInt 2)])
      = [Some ''x[5]'', Some ''x[4]'', None, Some ''y[1]'', Some ''y[0]'']"
    by code_simp
  from C7_ply_expand_entries [of "[(Some ''x'', CTuple [4, 2]), (None, CTuple [0, 1]), (Some ''y'', CInt 2)]"] wf ev
  show ?thesis by simp
qed

section \<open>Finalizing a pin layout against tracks\<close>

lemma pin_names_simps [simp]:
  "pin_names [] = []"
  "pin_names (None # ps) = pin_names ps"
  "pin_names (Some n # ps) = n # pin_names ps"
  by (simp_all add: pin_names_def map_filter_simps)

lemma named_pairs_simps [simp]:
  "named_pairs [] ts = []"
  "named_pairs ps [] = []"
  "named_pairs (None # ps) (t # ts) = named_pairs ps ts"
  "named_pairs (Some n # ps) (t # ts) = (n, t) # named_pairs ps ts"
  by (simp_all add: named_pairs_def map_filter_simps)

lemma named_pairs_keys:
  "length pins = length tracks \<Longrightarrow> map fst (named_pairs pins tracks) = pin_names pins"
proof (induction pins tracks rule: list_induct2)
  case Nil
  show ?case by simp
next
  case (Cons p ps t ts)
  then show ?case by (cases p) simp_all
qed

lemma named_pairs_nth:
  "length pins = length tracks \<Longrightarrow> i < length pins \<Longrightarrow> pins ! i = Some n \<Longrightarrow>
     (n, tracks ! i) \<in> set (named_pairs pins tracks)"
proof (induction pins tracks arbitrary: i rule: list_induct2)
  case Nil
  then show ?case by simp
next
  case (Cons p ps t ts)
  show ?case
  proof (cases i)
    case 0
    with Cons.prems show ?thesis by simp
  next
    case (Suc j)
    with Cons.prems have "(n, ts ! j) \<in> set (named_pairs ps ts)"
      by (intro Cons.IH) simp_all
    with Suc show ?thesis by (cases p) simp_all
  qed
qed

lemma update_fresh: "k \<notin> fst ` set al \<Longrightarrow> AList.update k v al = al @ [(k, v)]"
  by (induction al) auto

lemma fold_update_distinct:
  "distinct (map fst (acc @ pairs)) \<Longrightarrow>
     fold (\<lambda>(k, v) d. AList.update k v d) pairs acc = acc @ pairs"
proof (induction pairs arbitrary: acc)
  case Nil
  show ?case by simp
next
  case (Cons kv pairs)
  obtain k v where kv: "kv = (k, v)" by (cases kv)
  from Cons.prems kv have fresh: "k \<notin> fst ` set acc" by auto
  from Cons.prems kv have "distinct (map fst ((acc @ [(k, v)]) @ pairs))" by auto
  then have "fold (\<lambda>(k, v) d. AList.update k v d) pairs (acc @ [(k, v)]) = (acc @ [(k, v)]) @ pairs"
    by (rule Cons.IH)
  with fresh kv show ?case by (simp add: update_fresh)
qed

lemma py_dict_distinct: "distinct (map fst pairs) \<Longrightarrow> py_dict pairs = pairs"
  using fold_update_distinct [of "[]" pairs] by (simp add: py_dict_def)

lemma length_pin_names: "length (pin_names pins) = length pins - count_list pins None"
proof (induction pins)
  case Nil
  show ?case by simp
next
  case (Cons p ps)
  have "count_list ps None \<le> length ps" by (rule count_le_length)
  with Cons show ?case by (cases p) (simp_all add: Suc_diff_le)
qed

lemma ply_finalize_distinct:
  assumes len: "length pins = length tracks" and dist: "distinct (pin_names pins)"
  shows "ply_finalize pins tracks = Inr (named_pairs pins tracks)"
  using assms by (simp add: ply_finalize_def py_dict_distinct named_pairs_keys)

lemma count_list_append: "count_list (xs @ ys) a = count_list xs a + count_list ys a"
  by (induction xs) simp_all

lemma count_list_replicate_same: "count_list (replicate k a) a = k"
  by (induction k) simp_all

lemma count_list_map_Some: "count_list (map (\<lambda>i. Some (f i)) xs) None = 0"
  by (induction xs) simp_all

lemma expand_spec_length: "well_formed e \<Longrightarrow> length (expand_spec e) = entry_width e"
  by (induction e rule: expand_spec.induct) (simp_all add: index_names_def)

lemma expand_spec_skips:
  "well_formed e \<Longrightarrow>
     count_list (expand_spec e) None = (if fst e = None then entry_width e else 0)"
  by (induction e rule: expand_spec.induct)
    (simp_all add: index_names_def count_list_replicate_same count_list_map_Some)

lemma expand_all_length:
  "list_all well_formed ply \<Longrightarrow> length (concat (map expand_spec ply)) = total_width ply"
  by (induction ply) (simp_all add: total_width_def expand_spec_length)

lemma expand_all_skips:
  "list_all well_formed ply \<Longrightarrow> count_list (concat (map expand_spec ply)) None = skip_slots ply"
  by (induction ply) (simp_all add: skip_slots_def expand_spec_skips count_list_append)

text \<open>
  Claim C8, as stated: finalizing leaves as many named pins as the pin sequence has
  entries that are not placeholders, each mapped to the track at its position.  The
  layout \<open>[("a", None), ("a", None)]\<close> has total width 2 and no skip slot; finalized
  against the tracks \<open>[0, 10]\<close> it gives one named pin, not two, and the pin at
  position 0 is mapped to 10, not to the track 0 at its position.
\<close>

theorem C8_two_pins_one_name:
  "ply_expand [(Some ''a'', CNone), (Some ''a'', CNone)] = Inr [Some ''a'', Some ''a''] \<and>
   ply_finalize [Some ''a'', Some ''a''] [0, 10] = Inr [(''a'', 10)]"
  by code_simp

text \<open>
  Claim C8, amended: finalize fails if and only if the pin sequence and the track list
  differ in length.  On success, when the names in the pin sequence are pairwise
  distinct, the result has exactly the named pins, in order, each mapped to the track at
  its position, and the placeholders are dropped; so a well-formed pin layout of total
  width \<open>W\<close> expands to a sequence of length \<open>W\<close> with as many placeholders as the
  layout has skip slots, and finalizing it against \<open>W\<close> tracks leaves \<open>W\<close> minus the
  number of skip slots named pins.
\<close>

theorem C8_ply_finalize:
  "((\<exists>e. ply_finalize pins tracks = Inl e) \<longleftrightarrow> length pins \<noteq> length tracks) \<and>
   (length pins = length tracks \<and> distinct (pin_names pins) \<longrightarrow>
      (\<exists>d. ply_finalize pins tracks = Inr d \<and> map fst d = pin_names pins \<and>
           (\<forall>i n. i < length pins \<and> pins ! i = Some n \<longrightarrow> map_of d n = Some (tracks ! i)) \<and>
           length d = length pins - count_list pins None)) \<and>
   (list_all well_formed ply \<longrightarrow>
      (\<exists>pins'. ply_expand ply = Inr pins' \<and> length pins' = total_width ply \<and>
           count_list pins' None = skip_slots ply \<and>
           (length tracks' = total_width ply \<and> distinct (pin_names pins') \<longrightarrow>
              (\<exists>d. ply_finalize pins' tracks' = Inr d \<and>
                    length d = total_width ply - skip_slots ply))))"
proof (intro conjI impI)
  show "(\<exists>e. ply_finalize pins tracks = Inl e) \<longleftrightarrow> length pins \<noteq> length tracks"
    by (simp add: ply_finalize_def)
next
  assume a: "length pins = length tracks \<and> distinct (pin_names pins)"
  then have fin: "ply_finalize pins tracks = Inr (named_pairs pins tracks)"
    by (simp add: ply_finalize_distinct)
  from a have keys: "map fst (named_pairs pins tracks) = pin_names pins"
    by (simp add: named_pairs_keys)
  have look: "map_of (named_pairs pins tracks) n = Some (tracks ! i)"
    if "i < length pins \<and> pins ! i = Some n" for i n
  proof -
    from a that have "(n, tracks ! i) \<in> set (named_pairs pins tracks)"
      by (simp add: named_pairs_nth)
    moreover from a keys have "distinct (map fst (named_pairs pins tracks))" by simp
    ultimately show ?thesis by simp
  qed
  have "length (named_pairs pins tracks) = length (pin_names pins)"
    using keys by (metis length_map)
  then have "length (named_pairs pins tracks) = length pins - count_list pins None"
    by (simp add: length_pin_names)
  with fin keys look
  show "\<exists>d. ply_finalize pins tracks = Inr d \<and> map fst d = pin_names pins \<and>
           (\<forall>i n. i < length pins \<and> pins ! i = Some n \<longrightarrow> map_of d n = Some (tracks ! i)) \<and>
           length d = length pins - count_list pins None"
    by blast
next
  assume wf: "list_all well_formed ply"
  let ?pins = "concat (map expand_spec ply)"
  from wf have ex: "ply_expand ply = Inr ?pins"
    by (simp add: ply_expand_def ply_expand_loop_spec)
  from wf have len: "length ?pins = total_width ply" by (rule expand_all_length)
  from wf have sk: "count_list ?pins None = skip_slots ply" by (rule expand_all_skips)
  have fin: "\<exists>d. ply_finalize ?pins tracks' = Inr d \<and> length d = total_width ply - skip_slots ply"
    if h: "length tracks' = total_width ply \<and> distinct (pin_names ?pins)"
  proof -
    from h len have "ply_finalize ?pins tracks' = Inr (named_pairs ?pins tracks')"
      by (simp add: ply_finalize_distinct)
    moreover from h len have "map fst (named_pairs ?pins tracks') = pin_names ?pins"
      by (simp add: named_pairs_keys)
    then have "length (named_pairs ?pins tracks') = length (pin_names ?pins)"
      by (metis length_map)
    then have "length (named_pairs ?pins tracks') = total_width ply - skip_slots ply"
      by (simp add: length_pin_names len sk)
    ultimately show ?thesis by blast
  qed
  from ex len sk fin
  show "\<exists>pins'. ply_expand ply = Inr pins' \<and> length pins' = total_width ply \<and>
           count_list pins' None = skip_slots ply \<and>
           (length tracks' = total_width ply \<and> distinct (pin_names pins') \<longrightarrow>
              (\<exists>d. ply_finalize pins' tracks' = Inr d \<and>
                    length d = total_width ply - skip_slots ply))"
    by blast
qed

text \<open>The theorem at the pins \<open>a, (skip), b\<close> and the tracks \<open>0, 10, 20\<close>.\<close>

theorem C8_ply_finalize_witness:
  "(\<exists>d. ply_finalize [Some ''a'', None, Some ''b''] [0, 10, 20] = Inr d \<and>
        map fst d = [''a'', ''b''] \<and> map_of d ''b'' = Some 20 \<and> length d = 2) \<and>
   (\<exists>pins' d. ply_expand [(Some ''a'', CNone), (None, CInt 1), (Some ''b'', CNone)] = Inr pins' \<and>
        length pins' = 3 \<and> ply_finalize pins' [0, 10, 20] = Inr d \<and> length d = 2)"
proof -
  let ?pins = "[Some ''a'', None, Some ''b'']"
  let ?tracks = "[0, 10, 20] :: int list"
  let ?ply = "[(Some ''a'', CNone), (None, CInt 1), (Some ''b'', CNone)]"
  note inst = C8_ply_finalize [where pins = "?pins" and tracks = "?tracks" and ply = "?ply" and tracks' = "?tracks"]
  have h1: "length ?pins = length ?tracks \<and> distinct (pin_names ?pins)" by simp
  have wf: "list_all well_formed ?ply" by simp
  have ex: "ply_expand ?ply = Inr ?pins" by code_simp
  have tw: "total_width ?ply = 3" by (simp add: total_width_def)
  have sk: "skip_slots ?ply = 1" by (simp add: skip_slots_def)
  from inst h1 obtain d where d: "ply_finalize ?pins ?tracks = Inr d" "map fst d = pin_names ?pins"
      "\<forall>i n. i < length ?pins \<and> ?pins ! i = Some n \<longrightarrow> map_of d n = Some (?tracks ! i)"
      "length d = length ?pins - count_list ?pins None"
    by blast
  from d(3) have "2 < length ?pins \<and> ?pins ! 2 = Some ''b'' \<longrightarrow> map_of d ''b'' = Some (?tracks ! 2)"
    by blast
  then have b: "map_of d ''b'' = Some 20" by simp
  from d(2) have keys: "map fst d = [''a'', ''b'']" by simp
  from d(4) have ld: "length d = 2" by simp
  from inst wf obtain pins' where p: "ply_expand ?ply = Inr pins'" "length pins' = total_width ?ply"
      "length ?tracks = total_width ?ply \<and> distinct (pin_names pins') \<longrightarrow>
         (\<exists>d. ply_finalize pins' ?tracks = Inr d \<and> length d = total_width ?ply - skip_slots ?ply)"
    by blast
  from p(1) ex have eq: "pins' = ?pins" by simp
  with p(3) tw sk obtain d' where d': "ply_finalize pins' ?tracks = Inr d'" "length d' = 2"
    by auto
  from d(1) keys b ld p(1) p(2) tw d' show ?thesis by auto
qed

section \<open>Distribution of pins onto tracks\<close>

text \<open>With a positive pitch the track loop terminates.\<close>

lemma track_loop_total:
  "0 < t_pitch \<Longrightarrow> track_loop t_pitch endp p tracks = Some (tracks @ tracks_from t_pitch endp p)"
proof (induction t_pitch endp p arbitrary: tracks rule: tracks_from.induct)
  case (1 t_pitch endp p)
  show ?case
  proof (cases "p < endp")
    case True
    with "1.prems" have "track_loop t_pitch endp (p + t_pitch) (tracks @ [p])
        = Some ((tracks @ [p]) @ tracks_from t_pitch endp (p + t_pitch))"
      by (intro "1.IH") simp_all
    with True "1.prems" show ?thesis
      by (subst track_loop.simps, subst tracks_from.simps) simp
  next
    case False
    then show ?thesis
      by (subst track_loop.simps, subst tracks_from.simps) simp
  qed
qed

lemma gen_tracks_total:
  "0 < t_pitch \<Longrightarrow>
     gen_tracks t_offset t_pitch start endp
       = Some (tracks_from t_pitch endp (first_track t_offset t_pitch start))"
  by (simp add: gen_tracks_def track_loop_total)

text \<open>
  Claim C6: without a fixed step (\<open>step \<le> 0\<close>, the default being 0), with at least
  two pins and a positive pitch, the track loop returns the candidate tracks, the step
  is \<open>(len(tracks) - 1) // (n_pins - 1)\<close>, and the call fails with the area-too-small
  error if and only if that is zero (it returns, and fails in no other way); in
  particular five pins on four candidate tracks fail.
\<close>

theorem C6_step_and_saturation:
  assumes "0 < t_pitch" and "2 \<le> n_pins" and "step \<le> 0"
  shows "\<exists>tracks. gen_tracks t_offset t_pitch start endp = Some tracks \<and>
           pick_step tracks n_pins step = Inr ((int (length tracks) - 1) div (n_pins - 1)) \<and>
           (ply_distribute t_offset t_pitch n_pins start endp step = Some (Inl TooManyTracks)
              \<longleftrightarrow> (int (length tracks) - 1) div (n_pins - 1) = 0) \<and>
           (\<forall>e. ply_distribute t_offset t_pitch n_pins start endp step = Some (Inl e)
              \<longrightarrow> e = TooManyTracks) \<and>
           ply_distribute t_offset t_pitch n_pins start endp step \<noteq> None \<and>
           (n_pins = 5 \<and> length tracks = 4 \<longrightarrow>
              ply_distribute t_offset t_pitch n_pins start endp step = Some (Inl TooManyTracks))"
proof -
  let ?tracks = "tracks_from t_pitch endp (first_track t_offset t_pitch start)"
  from assms(1) have g: "gen_tracks t_offset t_pitch start endp = Some ?tracks"
    by (rule gen_tracks_total)
  from assms have s: "pick_step ?tracks n_pins step = Inr ((int (length ?tracks) - 1) div (n_pins - 1))"
    by (simp add: pick_step_def)
  from assms(1) g s
  have d: "ply_distribute t_offset t_pitch n_pins start endp step =
      Some (if (int (length ?tracks) - 1) div (n_pins - 1) = 0 then Inl TooManyTracks
            else Inr (py_slice ?tracks
                   ((int (length ?tracks) - ((n_pins - 1) * ((int (length ?tracks) - 1) div (n_pins - 1)) + 1)) div 2)
                   ((int (length ?tracks) - ((n_pins - 1) * ((int (length ?tracks) - 1) div (n_pins - 1)) + 1)) div 2
                      + ((n_pins - 1) * ((int (length ?tracks) - 1) div (n_pins - 1)) + 1))
                   ((int (length ?tracks) - 1) div (n_pins - 1))))"
    by (simp add: ply_distribute_def pick_tracks_def Let_def)
  have five: "(int (length ?tracks) - 1) div (n_pins - 1) = 0" if "n_pins = 5 \<and> length ?tracks = 4"
    using that by simp
  from g s d five show ?thesis
    by (intro exI [of _ ?tracks]) (auto split: if_splits)
qed

text \<open>The theorem at pitch 10 and the interval from 0 to 40: four candidates, five pins.\<close>

theorem C6_step_and_saturation_witness:
  "ply_distribute 0 10 5 0 40 0 = Some (Inl TooManyTracks) \<and>
   gen_tracks 0 10 0 40 = Some [0, 10, 20, 30]"
proof -
  have p: "(0::int) < 10" and n: "(2::int) \<le> 5" and s: "(0::int) \<le> 0" by simp_all
  from C6_step_and_saturation [OF p n s, of 0 0 40]
  obtain tracks where t: "gen_tracks 0 10 0 40 = Some tracks"
    and f: "(5::int) = 5 \<and> length tracks = 4 \<longrightarrow> ply_distribute 0 10 5 0 40 0 = Some (Inl TooManyTracks)"
    by blast
  have e: "gen_tracks 0 10 0 40 = Some [0, 10, 20, 30]" by code_simp
  with t have "tracks = [0, 10, 20, 30]" by simp
  then have "length tracks = 4" by simp
  with f e show ?thesis by simp
qed

text \<open>A slice with a positive step of a list that is too short.\<close>

lemma slice_adjust_bounds:
  "0 < step \<Longrightarrow> 0 \<le> len \<Longrightarrow> 0 \<le> slice_adjust len step i \<and> slice_adjust len step i \<le> len"
  by (simp add: slice_adjust_def)

lemma length_py_slice:
  "length (py_slice xs start stop step)
     = nat (slice_length (slice_adjust (int (length xs)) step start)
              (slice_adjust (int (length xs)) step stop) step)"
  by (simp add: py_slice_def Let_def)

lemma slice_short:
  assumes step: "0 < step" and short: "int (length xs) < (n - 1) * step + 1"
  shows "int (length (py_slice xs start stop step)) < n"
proof -
  let ?L = "int (length xs)"
  let ?a = "slice_adjust ?L step start"
  let ?b = "slice_adjust ?L step stop"
  from step have a: "0 \<le> ?a" and b: "?b \<le> ?L"
    using slice_adjust_bounds [of step ?L] by simp_all
  from step short have "0 \<le> (n - 1) * step" by simp
  with step have n1: "1 \<le> n"
    by (simp add: zero_le_mult_iff)
  show ?thesis
  proof (cases "?a < ?b")
    case False
    with step n1 show ?thesis
      by (simp add: length_py_slice slice_length_def)
  next
    case True
    from a b short have le: "?b - ?a - 1 \<le> (n - 1) * step - 1" by simp
    from step le have "(?b - ?a - 1) div step \<le> ((n - 1) * step - 1) div step"
      by (intro zdiv_mono1) simp_all
    also have "(n - 1) * step - 1 = (step - 1) + (n - 2) * step"
      by (simp add: algebra_simps)
    also from step have "((step - 1) + (n - 2) * step) div step = n - 2"
      by simp
    finally have "(?b - ?a - 1) div step + 1 < n" by simp
    moreover from True a step have "0 \<le> (?b - ?a - 1) div step"
      by (simp add: pos_imp_zdiv_nonneg_iff)
    ultimately show ?thesis using True step
      by (simp add: length_py_slice slice_length_def)
  qed
qed

text \<open>
  Claim C10: with a fixed positive step (and a positive pitch) the distribution never
  raises: it returns a list of coordinates.  When there are fewer candidate tracks than
  \<open>(n_pins - 1) * step + 1\<close>, it returns fewer than \<open>n_pins\<close> coordinates, and
  finalizing a pin sequence of length \<open>n_pins\<close> against them fails with the
  pin/track mismatch.
\<close>

theorem C10_fixed_step_unchecked:
  assumes "0 < t_pitch" and "0 < step"
  shows "\<exists>tracks r. gen_tracks t_offset t_pitch start endp = Some tracks \<and>
           ply_distribute t_offset t_pitch n_pins start endp step = Some (Inr r) \<and>
           (int (length tracks) < (n_pins - 1) * step + 1 \<longrightarrow>
              int (length r) < n_pins \<and>
              (\<forall>pins. int (length pins) = n_pins \<longrightarrow> ply_finalize pins r = Inl PinTrackMismatch))"
proof -
  let ?tracks = "tracks_from t_pitch endp (first_track t_offset t_pitch start)"
  let ?needed = "(n_pins - 1) * step + 1"
  let ?i = "(int (length ?tracks) - ?needed) div 2"
  let ?r = "py_slice ?tracks ?i (?i + ?needed) step"
  from assms(1) have g: "gen_tracks t_offset t_pitch start endp = Some ?tracks"
    by (rule gen_tracks_total)
  from assms g have d: "ply_distribute t_offset t_pitch n_pins start endp step = Some (Inr ?r)"
    by (simp add: ply_distribute_def pick_tracks_def pick_step_def Let_def)
  have short: "int (length ?r) < n_pins" if "int (length ?tracks) < ?needed"
    using assms(2) that by (rule slice_short)
  have fin: "ply_finalize pins ?r = Inl PinTrackMismatch"
    if "int (length ?tracks) < ?needed" and "int (length pins) = n_pins" for pins
    using short [OF that(1)] that(2) by (auto simp add: ply_finalize_def)
  from g d short fin show ?thesis by blast
qed

text \<open>The theorem at pitch 10, the interval from 0 to 30, five pins and step 2.\<close>

theorem C10_fixed_step_unchecked_witness:
  "gen_tracks 0 10 0 30 = Some [0, 10, 20] \<and>
   ply_distribute 0 10 5 0 30 2 = Some (Inr [0, 20]) \<and>
   ply_finalize [Some ''a'', Some ''b'', Some ''c'', Some ''d'', Some ''e''] [0, 20] = Inl PinTrackMismatch"
proof -
  have p: "(0::int) < 10" and s: "(0::int) < 2" by simp_all
  from C10_fixed_step_unchecked [OF p s, of 0 0 30 5]
  obtain tracks r where t: "gen_tracks 0 10 0 30 = Some tracks"
    and d: "ply_distribute 0 10 5 0 30 2 = Some (Inr r)"
    and f: "int (length tracks) < (5 - 1) * 2 + 1 \<longrightarrow> int (length r) < 5 \<and>
              (\<forall>pins. int (length pins) = 5 \<longrightarrow> ply_finalize pins r = Inl PinTrackMismatch)"
    by blast
  have e: "gen_tracks 0 10 0 30 = Some [0, 10, 20]" by code_simp
  have e2: "ply_distribute 0 10 5 0 30 2 = Some (Inr [0, 20])" by code_simp
  from t e have "tracks = [0, 10, 20]" by simp
  then have "int (length tracks) < (5 - 1) * 2 + 1" by simp
  with f have "\<forall>pins. int (length pins) = 5 \<longrightarrow> ply_finalize pins r = Inl PinTrackMismatch"
    by blast
  then have "int (length [Some ''a'', Some ''b'', Some ''c'', Some ''d'', Some ''e'']) = 5
      \<longrightarrow> ply_finalize [Some ''a'', Some ''b'', Some ''c'', Some ''d'', Some ''e''] r = Inl PinTrackMismatch"
    by blast
  moreover from d e2 have "r = [0, 20]" by simp
  ultimately show ?thesis using e e2 by simp
qed

section \<open>Invariants of the placement\<close>

lemma set_sites: "set (sites m x y) = footprint m x y"
  by (auto simp add: sites_def footprint_def py_range_def)

lemma sites_product:
  "sites m x y = map (\<lambda>(oy, ox). (x + ox, y + oy)) (List.product (py_range (height m)) (py_range (width m)))"
  by (simp add: sites_def product_concat_map map_concat comp_def)

lemma distinct_sites: "distinct (sites m x y)"
  unfolding sites_product
  by (rule distinct_map [THEN iffD2])
    (auto simp add: distinct_product py_range_def inj_on_def)

lemma remove_sites_ok:
  "set cs \<subseteq> free \<Longrightarrow> distinct cs \<Longrightarrow> remove_sites cs free = Inr (free - set cs)"
proof (induction cs arbitrary: free)
  case Nil
  show ?case by simp
next
  case (Cons c cs)
  from Cons.prems have "set cs \<subseteq> free - {c}" and "distinct cs" by auto
  then have "remove_sites cs (free - {c}) = Inr (free - {c} - set cs)"
    by (rule Cons.IH)
  moreover have "free - {c} - set cs = free - set (c # cs)" by auto
  ultimately show ?case using Cons.prems by simp
qed

lemma site_suitable_free: "site_suitable s m x y \<Longrightarrow> footprint m x y \<subseteq> grid_free s"
  by (auto simp add: site_suitable_def list_all_iff set_sites [symmetric] split: if_splits)

lemma site_suitable_odd: "site_suitable s m x y \<Longrightarrow> 1 < height m \<Longrightarrow> odd y"
  by (auto simp add: site_suitable_def and_one_eq split: if_splits)

lemma site_suitable_even: "1 < height m \<Longrightarrow> even y \<Longrightarrow> \<not> site_suitable s m x y"
  using site_suitable_odd by blast

text \<open>What a successful placement does to the state.\<close>

lemma place_at:
  assumes "site_suitable s m x y"
  shows "(case remove_sites (sites m x y) (grid_free s) of
             Inl e \<Rightarrow> Inl e
           | Inr free \<Rightarrow>
               Inr \<lparr> grid = AList.update (x, y) (m\<lparr>pos_x := Some x, pos_y := Some y\<rparr>) (grid s),
                     grid_free = free \<rparr>)
         = Inr \<lparr> grid = AList.update (x, y) (m\<lparr>pos_x := Some x, pos_y := Some y\<rparr>) (grid s),
                 grid_free = grid_free s - footprint m x y \<rparr>"
proof -
  from assms have "set (sites m x y) \<subseteq> grid_free s"
    by (simp add: set_sites site_suitable_free)
  then have "remove_sites (sites m x y) (grid_free s) = Inr (grid_free s - set (sites m x y))"
    using distinct_sites by (rule remove_sites_ok)
  then show ?thesis by (simp add: set_sites)
qed

lemma place_module_Inr:
  assumes "place_module gx gy s m = Inr s'"
  shows "\<exists>x y. site_suitable s m x y \<and>
           s' = \<lparr> grid = AList.update (x, y) (m\<lparr>pos_x := Some x, pos_y := Some y\<rparr>) (grid s),
                  grid_free = grid_free s - footprint m x y \<rparr>"
proof -
  let ?found = "(case (pos_x m, pos_y m) of
              (None, None) \<Rightarrow> Inr (find_xy_for_module gx gy s m)
            | (None, Some py) \<Rightarrow> find_x_for_module gx s m py
            | (Some px, None) \<Rightarrow> Inr (find_y_for_module gy s m px)
            | (Some px, Some py) \<Rightarrow> Inr (if site_suitable s m px py then Some (px, py) else None))"
  from assms obtain x y where f: "?found = Inr (Some (x, y))"
    unfolding place_module_def by (auto split: sum.splits option.splits prod.splits)
  have suit: "site_suitable s m x y"
  proof (cases "pos_x m")
    case None
    note nx = this
    show ?thesis
    proof (cases "pos_y m")
      case None
      with nx f have "List.find (\<lambda>(x, y). site_suitable s m x y) (scan_xy gx gy) = Some (x, y)"
        by (simp add: find_xy_for_module_def)
      then show ?thesis by (auto simp add: find_Some_iff)
    next
      case (Some py)
      with nx f show ?thesis
        by (auto simp add: find_x_for_module_def split: option.splits)
    qed
  next
    case (Some px)
    note sx = this
    show ?thesis
    proof (cases "pos_y m")
      case None
      with sx f have "List.find (\<lambda>y. site_suitable s m px y) (py_range gy) = Some y \<and> px = x"
        by (auto simp add: find_y_for_module_def)
      then show ?thesis by (auto simp add: find_Some_iff)
    next
      case (Some py)
      with sx f show ?thesis by (auto split: if_splits)
    qed
  qed
  from assms f have "(case remove_sites (sites m x y) (grid_free s) of
             Inl e \<Rightarrow> Inl e
           | Inr free \<Rightarrow>
               Inr \<lparr> grid = AList.update (x, y) (m\<lparr>pos_x := Some x, pos_y := Some y\<rparr>) (grid s),
                     grid_free = free \<rparr>) = Inr s'"
    unfolding place_module_def by simp
  with place_at [OF suit] suit show ?thesis by auto
qed

lemma footprint_placed [simp]:
  "footprint (m\<lparr>pos_x := a, pos_y := b\<rparr>) x y = footprint m x y"
  by (simp add: footprint_def)

lemma anchor_in_footprint: "1 \<le> width m \<Longrightarrow> 1 \<le> height m \<Longrightarrow> (x, y) \<in> footprint m x y"
  unfolding footprint_def by (auto intro!: exI [of _ 0])

lemma placement_inv_step:
  assumes inv: "placement_inv cells s"
    and suit: "site_suitable s m x y"
    and size: "1 \<le> width m" "1 \<le> height m"
  shows "placement_inv cells
           \<lparr> grid = grid s @ [((x, y), m\<lparr>pos_x := Some x, pos_y := Some y\<rparr>)],
             grid_free = grid_free s - footprint m x y \<rparr>"
    and "AList.update (x, y) (m\<lparr>pos_x := Some x, pos_y := Some y\<rparr>) (grid s)
             = grid s @ [((x, y), m\<lparr>pos_x := Some x, pos_y := Some y\<rparr>)]"
proof -
  let ?m = "m\<lparr>pos_x := Some x, pos_y := Some y\<rparr>"
  let ?F = "footprint m x y"
  from suit have free: "?F \<subseteq> grid_free s" by (rule site_suitable_free)
  from size have anchor: "(x, y) \<in> ?F" by (rule anchor_in_footprint)
  have fresh: "(x, y) \<notin> fst ` set (grid s)"
  proof
    assume "(x, y) \<in> fst ` set (grid s)"
    then obtain e where e: "e \<in> set (grid s)" "fst e = (x, y)" by auto
    with inv have "(x, y) \<in> entry_cells e" "entry_cells e \<inter> grid_free s = {}"
      unfolding placement_inv_def by auto
    with anchor free show False by auto
  qed
  then show upd: "AList.update (x, y) ?m (grid s) = grid s @ [((x, y), ?m)]"
    by (rule update_fresh)
  have new: "entry_cells ((x, y), ?m) = ?F" by (simp add: entry_cells_def)
  have old: "entry_cells e \<subseteq> cells \<and> entry_cells e \<inter> grid_free s = {} \<and>
        fst e \<in> entry_cells e \<and>
        pos_x (snd e) = Some (fst (fst e)) \<and> pos_y (snd e) = Some (snd (fst e)) \<and>
        (1 < height (snd e) \<longrightarrow> odd (snd (fst e)))" if "e \<in> set (grid s)" for e
    using inv that unfolding placement_inv_def by blast
  have pair: "entry_cells e1 \<inter> entry_cells e2 = {}"
    if "e1 \<in> set (grid s)" "e2 \<in> set (grid s)" "e1 \<noteq> e2" for e1 e2
    using inv that unfolding placement_inv_def by blast
  from inv have sub: "grid_free s \<subseteq> cells" unfolding placement_inv_def by blast
  have odd: "1 < height m \<longrightarrow> odd y" using suit site_suitable_odd by blast
  show "placement_inv cells \<lparr> grid = grid s @ [((x, y), ?m)], grid_free = grid_free s - ?F \<rparr>"
    unfolding placement_inv_def
  proof (intro conjI ballI impI)
    show "grid_free \<lparr>grid = grid s @ [((x, y), ?m)], grid_free = grid_free s - ?F\<rparr> \<subseteq> cells"
      using sub by auto
  next
    from inv have "distinct (map fst (grid s))" unfolding placement_inv_def by blast
    with fresh
    show "distinct (map fst (grid \<lparr>grid = grid s @ [((x, y), ?m)], grid_free = grid_free s - ?F\<rparr>))"
      by simp
  next
    fix e
    assume "e \<in> set (grid \<lparr>grid = grid s @ [((x, y), ?m)], grid_free = grid_free s - ?F\<rparr>)"
    then consider "e \<in> set (grid s)" | "e = ((x, y), ?m)" by auto
    then have "entry_cells e \<subseteq> cells \<and> entry_cells e \<inter> (grid_free s - ?F) = {} \<and>
        fst e \<in> entry_cells e \<and>
        pos_x (snd e) = Some (fst (fst e)) \<and> pos_y (snd e) = Some (snd (fst e)) \<and>
        (1 < height (snd e) \<longrightarrow> odd (snd (fst e)))"
    proof cases
      case 1
      with old [of e] show ?thesis by auto
    next
      case 2
      with new free sub anchor odd show ?thesis by auto
    qed
    then show "entry_cells e \<subseteq> cells"
      and "entry_cells e \<inter> grid_free \<lparr>grid = grid s @ [((x, y), ?m)], grid_free = grid_free s - ?F\<rparr> = {}"
      and "fst e \<in> entry_cells e"
      and "pos_x (snd e) = Some (fst (fst e))"
      and "pos_y (snd e) = Some (snd (fst e))"
      and "1 < height (snd e) \<Longrightarrow> odd (snd (fst e))"
      by simp_all
  next
    fix e1 e2
    assume "e1 \<in> set (grid \<lparr>grid = grid s @ [((x, y), ?m)], grid_free = grid_free s - ?F\<rparr>)"
      and "e2 \<in> set (grid \<lparr>grid = grid s @ [((x, y), ?m)], grid_free = grid_free s - ?F\<rparr>)"
      and ne: "e1 \<noteq> e2"
    then have c1: "e1 \<in> set (grid s) \<or> e1 = ((x, y), ?m)"
      and c2: "e2 \<in> set (grid s) \<or> e2 = ((x, y), ?m)" by auto
    have oldnew: "entry_cells e \<inter> ?F = {}" if "e \<in> set (grid s)" for e
      using old [OF that] free by auto
    from c1 c2 ne show "entry_cells e1 \<inter> entry_cells e2 = {}"
      using pair [of e1 e2] oldnew [of e1] oldnew [of e2] new by auto
  qed
qed

lemma place_module_inv:
  assumes "place_module gx gy s m = Inr s'" and "placement_inv cells s"
    and "1 \<le> width m" "1 \<le> height m"
  shows "placement_inv cells s' \<and> length (grid s') = Suc (length (grid s))"
proof -
  from place_module_Inr [OF assms(1)] obtain x y where suit: "site_suitable s m x y"
    and s': "s' = \<lparr> grid = AList.update (x, y) (m\<lparr>pos_x := Some x, pos_y := Some y\<rparr>) (grid s),
                  grid_free = grid_free s - footprint m x y \<rparr>"
    by blast
  note step = placement_inv_step [OF assms(2) suit assms(3,4)]
  from s' step(2) have "s' = \<lparr> grid = grid s @ [((x, y), m\<lparr>pos_x := Some x, pos_y := Some y\<rparr>)],
                  grid_free = grid_free s - footprint m x y \<rparr>"
    by simp
  with step(1) show ?thesis by simp
qed

lemma place_each_inv:
  "place_each gx gy s ms = Inr s' \<Longrightarrow> placement_inv cells s \<Longrightarrow> list_all sized ms \<Longrightarrow>
     placement_inv cells s' \<and> length (grid s') = length (grid s) + length ms"
proof (induction ms arbitrary: s)
  case Nil
  then show ?case by simp
next
  case (Cons m ms)
  from Cons.prems(1) obtain s1 where s1: "place_module gx gy s m = Inr s1"
    and rest: "place_each gx gy s1 ms = Inr s'"
    by (auto split: sum.splits)
  from Cons.prems(3) have sz: "sized m" and szs: "list_all sized ms" by simp_all
  from sz have "1 \<le> width m" "1 \<le> height m" by (simp_all add: sized_def)
  with place_module_inv [OF s1 Cons.prems(2)]
  have "placement_inv cells s1" and "length (grid s1) = Suc (length (grid s))" by simp_all
  with Cons.IH [OF rest _ szs] show ?case by simp
qed

lemma set_insort_rev: "set (insort_rev m ms) = insert m (set ms)"
  by (induction ms) auto

lemma length_insort_rev: "length (insort_rev m ms) = Suc (length ms)"
  by (induction ms) auto

lemma set_sorted_rev: "set (sorted_rev ms) = set ms"
  by (induction ms) (simp_all add: sorted_rev_def set_insort_rev)

lemma length_sorted_rev: "length (sorted_rev ms) = length ms"
  by (induction ms) (simp_all add: sorted_rev_def length_insort_rev)

lemma place_modules_group_inv:
  assumes "place_modules_group gx gy s ms = Inr s'" and "placement_inv cells s"
    and "list_all sized ms"
  shows "placement_inv cells s' \<and> length (grid s') = length (grid s) + length ms"
proof -
  from assms(3) have "list_all sized (sorted_rev ms)"
    by (simp add: list_all_iff set_sorted_rev)
  with place_each_inv [of gx gy s "sorted_rev ms" s' cells] assms(1,2)
  show ?thesis by (simp add: place_modules_group_def length_sorted_rev)
qed

lemma length_three_groups:
  "length (full_placed ms) + length (semi_placed ms) + length (auto_placed ms) = length ms"
  by (induction ms) (auto simp add: full_placed_def semi_placed_def auto_placed_def)

lemma place_modules_inv:
  assumes "place_modules gx gy s ms = Inr s'" and "placement_inv cells s" and "list_all sized ms"
  shows "placement_inv cells s' \<and> length (grid s') = length (grid s) + length ms"
proof -
  from assms(1) obtain s1 s2 where
    g1: "place_modules_group gx gy s (full_placed ms) = Inr s1" and
    g2: "place_modules_group gx gy s1 (semi_placed ms) = Inr s2" and
    g3: "place_modules_group gx gy s2 (auto_placed ms) = Inr s'"
    by (auto simp add: place_modules_def split: sum.splits)
  from assms(3) have a: "list_all sized (full_placed ms)" "list_all sized (semi_placed ms)"
      "list_all sized (auto_placed ms)"
    by (auto simp add: list_all_iff full_placed_def semi_placed_def auto_placed_def)
  from place_modules_group_inv [OF g1 assms(2) a(1)]
  have i1: "placement_inv cells s1" and l1: "length (grid s1) = length (grid s) + length (full_placed ms)"
    by simp_all
  from place_modules_group_inv [OF g2 i1 a(2)]
  have i2: "placement_inv cells s2" and l2: "length (grid s2) = length (grid s1) + length (semi_placed ms)"
    by simp_all
  from place_modules_group_inv [OF g3 i2 a(3)]
  have i3: "placement_inv cells s'" and l3: "length (grid s') = length (grid s2) + length (auto_placed ms)"
    by simp_all
  from i3 l1 l2 l3 length_three_groups [of ms] show ?thesis by simp
qed

lemma load_modules_Inr:
  "load_modules gx gy data = Inr ms \<Longrightarrow> ms = data \<and> list_all sized data"
proof (induction data arbitrary: ms)
  case Nil
  then show ?case by simp
next
  case (Cons m data)
  from Cons.prems obtain ms' where c: "check_module gx gy m = None"
    and l: "load_modules gx gy data = Inr ms'" and ms: "ms = m # ms'"
    by (auto split: option.splits sum.splits)
  from c have "sized m"
    by (auto simp add: check_module_def sized_def split: if_splits)
  with Cons.IH [OF l] ms show ?case by simp
qed

lemma fold_insert_two:
  "fold (\<lambda>x free. insert (f x) (insert (g x) free)) xs A = A \<union> f ` set xs \<union> g ` set xs"
  by (induction xs arbitrary: A) auto

lemma fold_union: "fold (\<lambda>y free. free \<union> F y) ys A = A \<union> (\<Union>y \<in> set ys. F y)"
  by (induction ys arbitrary: A) auto

lemma shift_image: "(a, b) \<in> (\<lambda>x::int. (x + 16, y)) ` S \<longleftrightarrow> b = y \<and> a - 16 \<in> S"
proof
  assume "(a, b) \<in> (\<lambda>x. (x + 16, y)) ` S"
  then show "b = y \<and> a - 16 \<in> S" by auto
next
  assume h: "b = y \<and> a - 16 \<in> S"
  then have "(a, b) = (\<lambda>x. (x + 16, y)) (a - 16)" by simp
  with h show "(a, b) \<in> (\<lambda>x. (x + 16, y)) ` S" by blast
qed

lemma gen_grid_free: "grid_free (gen_grid gx gy) = grid_cells gx gy"
proof -
  have "grid_free (gen_grid gx gy)
      = (\<Union>y \<in> {0..gy - 1}. (\<lambda>x. (x + 16, y)) ` {0..gx div 2 - 1} \<union> (\<lambda>x. (x, y)) ` {0..gx div 2 - 1})"
    by (simp add: gen_grid_def fold_insert_two py_range_def Un_assoc fold_union)
  also have "\<dots> = grid_cells gx gy"
    by (auto simp add: grid_cells_def shift_image)
  finally show ?thesis .
qed

lemma gen_grid_inv: "placement_inv (grid_cells gx gy) (gen_grid gx gy)"
  unfolding placement_inv_def using gen_grid_free [of gx gy] by (simp add: gen_grid_def)

lemma ModulePlacer_inv:
  assumes "ModulePlacer gx gy data = Inr s"
  shows "placement_inv (grid_cells gx gy) s \<and> length (grid s) = length data"
proof -
  from assms obtain ms where l: "load_modules gx gy data = Inr ms"
    and p: "place_modules gx gy (gen_grid gx gy) ms = Inr s"
    by (auto simp add: ModulePlacer_def split: sum.splits)
  from load_modules_Inr [OF l] have ms: "ms = data" and sz: "list_all sized ms" by simp_all
  from place_modules_inv [OF p gen_grid_inv sz] ms show ?thesis
    by (simp add: gen_grid_def)
qed

lemma inv_entry:
  assumes inv: "placement_inv cells s" and e: "((x, y), m) \<in> set (grid s)"
  shows "footprint m x y \<subseteq> cells" and "pos_x m = Some x" and "pos_y m = Some y"
    and "1 < height m \<Longrightarrow> odd y"
proof -
  from inv have "\<forall>e \<in> set (grid s).
        entry_cells e \<subseteq> cells \<and> entry_cells e \<inter> grid_free s = {} \<and>
        fst e \<in> entry_cells e \<and>
        pos_x (snd e) = Some (fst (fst e)) \<and> pos_y (snd e) = Some (snd (fst e)) \<and>
        (1 < height (snd e) \<longrightarrow> odd (snd (fst e)))"
    unfolding placement_inv_def by (elim conjE)
  from bspec [OF this e]
  show "footprint m x y \<subseteq> cells" and "pos_x m = Some x" and "pos_y m = Some y"
    and "1 < height m \<Longrightarrow> odd y"
    by (simp_all add: entry_cells_def)
qed

lemma inv_disjoint:
  assumes inv: "placement_inv cells s" and e1: "((x1, y1), m1) \<in> set (grid s)"
    and e2: "((x2, y2), m2) \<in> set (grid s)" and ne: "((x1, y1), m1) \<noteq> ((x2, y2), m2)"
  shows "footprint m1 x1 y1 \<inter> footprint m2 x2 y2 = {}"
proof -
  from inv have "\<forall>e1 \<in> set (grid s). \<forall>e2 \<in> set (grid s). e1 \<noteq> e2 \<longrightarrow> entry_cells e1 \<inter> entry_cells e2 = {}"
    unfolding placement_inv_def by (elim conjE)
  from bspec [OF bspec [OF this e1] e2] ne
  show ?thesis by (simp add: entry_cells_def)
qed

text \<open>
  Claim C5: when the placement of a module list succeeds, every placed module covers
  exactly the cells of its footprint, all of them cells of the grid, and the footprints
  of two distinct placed modules are disjoint.  Every module of the list is placed, each
  at an anchor of its own, which it carries as its position.
\<close>

theorem C5_footprints_disjoint_in_grid:
  assumes "ModulePlacer gx gy data = Inr s"
  shows "(\<forall>x y m. ((x, y), m) \<in> set (grid s) \<longrightarrow>
            footprint m x y \<subseteq> grid_cells gx gy \<and> set (sites m x y) = footprint m x y \<and>
            pos_x m = Some x \<and> pos_y m = Some y) \<and>
         (\<forall>x1 y1 m1 x2 y2 m2. ((x1, y1), m1) \<in> set (grid s) \<and> ((x2, y2), m2) \<in> set (grid s) \<and>
            ((x1, y1), m1) \<noteq> ((x2, y2), m2) \<longrightarrow> footprint m1 x1 y1 \<inter> footprint m2 x2 y2 = {}) \<and>
         distinct (map fst (grid s)) \<and> length (grid s) = length data"
proof -
  from ModulePlacer_inv [OF assms] have inv: "placement_inv (grid_cells gx gy) s"
    and len: "length (grid s) = length data" by simp_all
  from inv have dist: "distinct (map fst (grid s))" unfolding placement_inv_def by (elim conjE)
  show ?thesis
  proof (intro conjI allI impI)
    fix x y m assume e: "((x, y), m) \<in> set (grid s)"
    from inv_entry [OF inv e]
    show "footprint m x y \<subseteq> grid_cells gx gy" and "pos_x m = Some x" and "pos_y m = Some y"
      by simp_all
    show "set (sites m x y) = footprint m x y" by (rule set_sites)
  next
    fix x1 y1 m1 x2 y2 m2
    assume "((x1, y1), m1) \<in> set (grid s) \<and> ((x2, y2), m2) \<in> set (grid s) \<and>
            ((x1, y1), m1) \<noteq> ((x2, y2), m2)"
    then show "footprint m1 x1 y1 \<inter> footprint m2 x2 y2 = {}"
      using inv_disjoint [OF inv] by blast
  next
    show "distinct (map fst (grid s))" by (rule dist)
  next
    show "length (grid s) = length data" by (rule len)
  qed
qed

text \<open>The theorem at the grid \<open>4 \<times> 2\<close> with two free modules of width 2.\<close>

theorem C5_footprints_disjoint_in_grid_witness:
  "footprint \<lparr>name = ''A'', pos_x = Some 0, pos_y = Some 0, width = 2, height = 1\<rparr> 0 0
     \<inter> footprint \<lparr>name = ''B'', pos_x = Some 16, pos_y = Some 0, width = 2, height = 1\<rparr> 16 0 = {} \<and>
   footprint \<lparr>name = ''B'', pos_x = Some 16, pos_y = Some 0, width = 2, height = 1\<rparr> 16 0
     \<subseteq> grid_cells 4 2"
proof -
  let ?A = "\<lparr>name = ''A'', pos_x = Some 0, pos_y = Some 0, width = 2, height = 1\<rparr>"
  let ?B = "\<lparr>name = ''B'', pos_x = Some 16, pos_y = Some 0, width = 2, height = 1\<rparr>"
  let ?data = "[\<lparr>name = ''A'', pos_x = None, pos_y = None, width = 2, height = 1\<rparr>,
                \<lparr>name = ''B'', pos_x = None, pos_y = None, width = 2, height = 1\<rparr>]"
  have "map_sum id grid (ModulePlacer 4 2 ?data) = Inr [((0, 0), ?A), ((16, 0), ?B)]"
    by code_simp
  then obtain s where run: "ModulePlacer 4 2 ?data = Inr s"
    and g: "grid s = [((0, 0), ?A), ((16, 0), ?B)]"
    by (cases "ModulePlacer 4 2 ?data") auto
  from g have a: "((0, 0), ?A) \<in> set (grid s)" and b: "((16, 0), ?B) \<in> set (grid s)"
    and ne: "((0 :: int, 0 :: int), ?A) \<noteq> ((16, 0), ?B)"
    by simp_all
  from C5_footprints_disjoint_in_grid [OF run] a b ne
  have "footprint ?A 0 0 \<inter> footprint ?B 16 0 = {}" by blast
  moreover from C5_footprints_disjoint_in_grid [OF run] b
  have "footprint ?B 16 0 \<subseteq> grid_cells 4 2" by blast
  ultimately show ?thesis by simp
qed

text \<open>A module with both coordinates fixed is placed at its site or not at all.\<close>

lemma place_module_fixed:
  assumes "pos_x m = Some x" and "pos_y m = Some y"
  shows "place_module gx gy s m =
           (if site_suitable s m x y
            then Inr \<lparr> grid = AList.update (x, y) (m\<lparr>pos_x := Some x, pos_y := Some y\<rparr>) (grid s),
                       grid_free = grid_free s - footprint m x y \<rparr>
            else Inl (CouldNotPlace (name m)))"
proof (cases "site_suitable s m x y")
  case True
  with assms place_at [OF True] show ?thesis by (simp add: place_module_def)
next
  case False
  with assms show ?thesis by (simp add: place_module_def)
qed

lemma place_module_even_row:
  assumes "pos_x m = Some x" and "pos_y m = Some y" and "1 < height m" and "even y"
  shows "place_module gx gy s m = Inl (CouldNotPlace (name m))"
  using assms site_suitable_even [of m y s x] by (simp add: place_module_fixed)

lemma place_each_even_row:
  assumes "\<forall>m \<in> set ms. pos_x m \<noteq> None \<and> pos_y m \<noteq> None"
    and "b \<in> set ms" and "pos_y b = Some y" and "1 < height b" and "even y"
  shows "\<exists>n. place_each gx gy s ms = Inl (CouldNotPlace n)"
  using assms(1,2)
proof (induction ms arbitrary: s)
  case Nil
  then show ?case by simp
next
  case (Cons m ms)
  from Cons.prems(1) obtain mx my where pos: "pos_x m = Some mx" "pos_y m = Some my" by auto
  show ?case
  proof (cases "site_suitable s m mx my")
    case False
    with pos show ?thesis by (simp add: place_module_fixed)
  next
    case True
    have "m \<noteq> b"
    proof
      assume "m = b"
      with pos assms(3) have "my = y" by simp
      with True \<open>m = b\<close> assms(4,5) site_suitable_even [of b y s mx] show False by simp
    qed
    with Cons.prems(2) have "b \<in> set ms" by simp
    moreover from Cons.prems(1) have "\<forall>m \<in> set ms. pos_x m \<noteq> None \<and> pos_y m \<noteq> None" by simp
    ultimately have "\<exists>n. place_each gx gy s' ms = Inl (CouldNotPlace n)" for s'
      using Cons.IH by blast
    with True pos show ?thesis by (simp add: place_module_fixed)
  qed
qed

lemma place_modules_even_row:
  assumes "b \<in> set ms" and "pos_x b = Some x" and "pos_y b = Some y" and "1 < height b" and "even y"
  shows "\<exists>n. place_modules gx gy s ms = Inl (CouldNotPlace n)"
proof -
  from assms(1-3) have "b \<in> set (sorted_rev (full_placed ms))"
    by (simp add: set_sorted_rev full_placed_def)
  moreover have "\<forall>m \<in> set (sorted_rev (full_placed ms)). pos_x m \<noteq> None \<and> pos_y m \<noteq> None"
    by (simp add: set_sorted_rev full_placed_def)
  ultimately obtain n where "place_each gx gy s (sorted_rev (full_placed ms)) = Inl (CouldNotPlace n)"
    using place_each_even_row [OF _ _ assms(3-5)] by blast
  then show ?thesis by (simp add: place_modules_def place_modules_group_def)
qed

lemma load_modules_Inl: "load_modules gx gy data = Inl e \<Longrightarrow> \<exists>n. e = InvalidModule n"
  by (induction data) (auto simp add: check_module_def split: option.splits sum.splits if_splits)

text \<open>
  Claim C9: after a successful placement every placed module of height 2 has an anchor
  on an odd row.  A module of height 2 with both coordinates fixed and an even \<open>y\<close>
  is refused by \<open>_place_module\<close> with the placement error for that module in every
  state of the placer, whether its cells are free or not; and a run on a module list that
  contains it ends with an error: an invalid-module error of the load checks, or else a
  placement error.
\<close>

theorem C9_height_two_on_odd_rows:
  "(ModulePlacer gx gy data = Inr s \<longrightarrow>
      (\<forall>x y m. ((x, y), m) \<in> set (grid s) \<and> height m = 2 \<longrightarrow> odd y)) \<and>
   (pos_x b = Some px \<and> pos_y b = Some py \<and> height b = 2 \<and> even py \<longrightarrow>
      place_module gx gy s' b = Inl (CouldNotPlace (name b)) \<and>
      (b \<in> set data \<longrightarrow>
         (\<exists>n. ModulePlacer gx gy data = Inl (InvalidModule n)) \<or>
         (\<exists>n. ModulePlacer gx gy data = Inl (CouldNotPlace n))))"
proof (intro conjI impI allI)
  fix x y m
  assume run: "ModulePlacer gx gy data = Inr s" and e: "((x, y), m) \<in> set (grid s) \<and> height m = 2"
  from ModulePlacer_inv [OF run] have "placement_inv (grid_cells gx gy) s" by simp
  from e have "((x, y), m) \<in> set (grid s)" and "1 < height m" by simp_all
  with inv_entry(4) [OF \<open>placement_inv (grid_cells gx gy) s\<close>] show "odd y" by blast
next
  assume b: "pos_x b = Some px \<and> pos_y b = Some py \<and> height b = 2 \<and> even py"
  then show "place_module gx gy s' b = Inl (CouldNotPlace (name b))"
    by (simp add: place_module_even_row)
next
  assume b: "pos_x b = Some px \<and> pos_y b = Some py \<and> height b = 2 \<and> even py"
    and mem: "b \<in> set data"
  show "(\<exists>n. ModulePlacer gx gy data = Inl (InvalidModule n)) \<or>
         (\<exists>n. ModulePlacer gx gy data = Inl (CouldNotPlace n))"
  proof (cases "load_modules gx gy data")
    case (Inl e)
    with load_modules_Inl [OF Inl] show ?thesis by (auto simp add: ModulePlacer_def)
  next
    case (Inr ms)
    from load_modules_Inr [OF Inr] have "ms = data" by simp
    with mem b place_modules_even_row [of b ms px py gx gy "gen_grid gx gy"]
    obtain n where "place_modules gx gy (gen_grid gx gy) ms = Inl (CouldNotPlace n)" by auto
    with Inr show ?thesis by (simp add: ModulePlacer_def)
  qed
qed

text \<open>
  The theorem on a \<open>4 \<times> 4\<close> grid: a free module of height 2 lands on row 1, and a
  module of height 2 fixed at \<open>(0, 2)\<close>, whose two cells are free, is refused.
\<close>

theorem C9_height_two_on_odd_rows_witness:
  "(\<exists>s. ModulePlacer 4 4 [\<lparr>name = ''H'', pos_x = None, pos_y = None, width = 1, height = 2\<rparr>] = Inr s \<and>
        grid s = [((0, 1), \<lparr>name = ''H'', pos_x = Some 0, pos_y = Some 1, width = 1, height = 2\<rparr>)]) \<and>
   odd (1 :: int) \<and>
   list_all (\<lambda>c. c \<in> grid_free (gen_grid 4 4))
     (sites \<lparr>name = ''F'', pos_x = Some 0, pos_y = Some 2, width = 1, height = 2\<rparr> 0 2) \<and>
   place_module 4 4 (gen_grid 4 4) \<lparr>name = ''F'', pos_x = Some 0, pos_y = Some 2, width = 1, height = 2\<rparr>
     = Inl (CouldNotPlace ''F'') \<and>
   ModulePlacer 4 4 [\<lparr>name = ''F'', pos_x = Some 0, pos_y = Some 2, width = 1, height = 2\<rparr>]
     = Inl (CouldNotPlace ''F'')"
proof -
  let ?H = "\<lparr>name = ''H'', pos_x = None, pos_y = None, width = 1, height = 2\<rparr>"
  let ?H' = "\<lparr>name = ''H'', pos_x = Some 0, pos_y = Some 1, width = 1, height = 2\<rparr>"
  let ?F = "\<lparr>name = ''F'', pos_x = Some 0, pos_y = Some 2, width = 1, height = 2\<rparr>"
  note inst = C9_height_two_on_odd_rows [where gx = 4 and gy = 4 and b = "?F" and px = 0 and py = 2
      and s' = "gen_grid 4 4"]
  have "map_sum id grid (ModulePlacer 4 4 [?H]) = Inr [((0, 1), ?H')]"
    by code_simp
  then obtain s where run: "ModulePlacer 4 4 [?H] = Inr s" and g: "grid s = [((0, 1), ?H')]"
    by (cases "ModulePlacer 4 4 [?H]") auto
  from g have "((0, 1), ?H') \<in> set (grid s) \<and> height ?H' = 2" by simp
  with inst [where data = "[?H]" and s = s] run have o: "odd (1 :: int)" by blast
  have free: "list_all (\<lambda>c. c \<in> grid_free (gen_grid 4 4)) (sites ?F 0 2)"
    by code_simp
  have hyp: "pos_x ?F = Some 0 \<and> pos_y ?F = Some 2 \<and> height ?F = 2 \<and> even (2 :: int)"
    by simp
  with inst [where data = "[?F]" and s = s]
  have p: "place_module 4 4 (gen_grid 4 4) ?F = Inl (CouldNotPlace (name ?F))" by blast
  have r: "ModulePlacer 4 4 [?F] = Inl (CouldNotPlace ''F'')" by code_simp
  from run g o free p r show ?thesis by simp
qed

section \<open>What the distribution guarantees\<close>

text \<open>
  The candidate tracks of a positive pitch are the grid lines \<open>p, p + t_pitch, \<dots>\<close>
  below \<open>endp\<close>, up to the last one before \<open>endp\<close>.
\<close>

lemma tracks_from_nth:
  "0 < t_pitch \<Longrightarrow> i < length (tracks_from t_pitch endp p) \<Longrightarrow>
     tracks_from t_pitch endp p ! i = p + int i * t_pitch"
proof (induction t_pitch endp p arbitrary: i rule: tracks_from.induct)
  case (1 t_pitch endp p)
  show ?case
  proof (cases "p < endp")
    case False
    with "1.prems" show ?thesis by (simp add: tracks_from.simps [of t_pitch endp p])
  next
    case True
    with "1.prems" have unf: "tracks_from t_pitch endp p = p # tracks_from t_pitch endp (p + t_pitch)"
      by (simp add: tracks_from.simps [of t_pitch endp p])
    show ?thesis
    proof (cases i)
      case 0
      with unf show ?thesis by simp
    next
      case (Suc j)
      with "1.prems" unf have "j < length (tracks_from t_pitch endp (p + t_pitch))" by simp
      with "1.IH" True "1.prems"(1)
      have "tracks_from t_pitch endp (p + t_pitch) ! j = p + t_pitch + int j * t_pitch" by simp
      with Suc unf show ?thesis by (simp add: algebra_simps)
    qed
  qed
qed

lemma tracks_from_below: "c \<in> set (tracks_from t_pitch endp p) \<Longrightarrow> c < endp"
proof (induction t_pitch endp p rule: tracks_from.induct)
  case (1 t_pitch endp p)
  show ?case
  proof (cases "0 < t_pitch \<and> p < endp")
    case False
    with "1.prems" show ?thesis by (simp add: tracks_from.simps [of t_pitch endp p])
  next
    case True
    with "1.prems" have "c = p \<or> c \<in> set (tracks_from t_pitch endp (p + t_pitch))"
      by (simp add: tracks_from.simps [of t_pitch endp p])
    with True "1.IH" show ?thesis by auto
  qed
qed

lemma tracks_from_reach:
  "0 < t_pitch \<Longrightarrow> endp \<le> p + int (length (tracks_from t_pitch endp p)) * t_pitch"
proof (induction t_pitch endp p rule: tracks_from.induct)
  case (1 t_pitch endp p)
  show ?case
  proof (cases "p < endp")
    case False
    with "1.prems" show ?thesis by (simp add: tracks_from.simps [of t_pitch endp p])
  next
    case True
    with "1.prems" have unf: "tracks_from t_pitch endp p = p # tracks_from t_pitch endp (p + t_pitch)"
      by (simp add: tracks_from.simps [of t_pitch endp p])
    from "1.IH" True "1.prems"
    have "endp \<le> p + t_pitch + int (length (tracks_from t_pitch endp (p + t_pitch))) * t_pitch"
      by simp
    with unf show ?thesis by (simp add: algebra_simps)
  qed
qed

text \<open>
  The first candidate is the last grid line at or before \<open>start\<close>: it is \<open>start\<close>
  itself only when \<open>start\<close> is on the grid.
\<close>

lemma first_track_bounds:
  assumes "0 < t_pitch"
  shows "first_track t_offset t_pitch start \<le> start"
    and "start < first_track t_offset t_pitch start + t_pitch"
    and "(start - t_offset) mod t_pitch = 0 \<Longrightarrow> first_track t_offset t_pitch start = start"
proof -
  have eq: "start - first_track t_offset t_pitch start = (start - t_offset) mod t_pitch"
    unfolding first_track_def by (simp add: algebra_simps minus_div_mult_eq_mod [symmetric])
  from assms have "0 \<le> (start - t_offset) mod t_pitch" "(start - t_offset) mod t_pitch < t_pitch"
    by simp_all
  with eq show "first_track t_offset t_pitch start \<le> start"
    and "start < first_track t_offset t_pitch start + t_pitch" by linarith+
  from eq show "(start - t_offset) mod t_pitch = 0 \<Longrightarrow> first_track t_offset t_pitch start = start"
    by simp
qed

text \<open>A slice that lies in the list has one element for each step.\<close>

lemma py_slice_window:
  assumes step: "0 < step" and n: "1 \<le> n" and a: "0 \<le> a"
    and fit: "a + ((n - 1) * step + 1) \<le> int (length xs)"
  shows "py_slice xs a (a + ((n - 1) * step + 1)) step
           = map (\<lambda>k. xs ! nat (a + int k * step)) [0..<nat n]"
proof -
  let ?L = "int (length xs)"
  from step n have pos: "0 \<le> (n - 1) * step" by simp
  with a fit have lt: "a < ?L" by linarith
  with a have sa: "slice_adjust ?L step a = a" by (simp add: slice_adjust_def)
  from a pos fit step have sb: "slice_adjust ?L step (a + ((n - 1) * step + 1)) = a + ((n - 1) * step + 1)"
    by (auto simp add: slice_adjust_def)
  from step have "((n - 1) * step) div step = n - 1" by simp
  with step pos have "slice_length a (a + ((n - 1) * step + 1)) step = n"
    by (simp add: slice_length_def)
  with sa sb show ?thesis by (simp add: py_slice_def Let_def)
qed

text \<open>
  With a computed step that is positive, the result is the window of \<open>n_pins\<close>
  candidates, \<open>k\<close> apart, that starts at the candidate \<open>i0\<close>, half of the spare
  candidates rounded down.
\<close>

lemma computed_step_window:
  fixes n_pins :: int
  assumes pitch: "0 < t_pitch" and n: "2 \<le> n_pins" and st: "step \<le> 0"
    and feasible: "0 < (int (length (tracks_from t_pitch endp (first_track t_offset t_pitch start))) - 1)
                         div (n_pins - 1)"
  shows "\<exists>i0 k. 0 \<le> i0 \<and> 0 < k \<and>
           int (length (tracks_from t_pitch endp (first_track t_offset t_pitch start))) - ((n_pins - 1) * k + 1) - 1 \<le> 2 * i0 \<and>
           2 * i0 \<le> int (length (tracks_from t_pitch endp (first_track t_offset t_pitch start))) - ((n_pins - 1) * k + 1) \<and>
           ply_distribute t_offset t_pitch n_pins start endp step
             = Some (Inr (map (\<lambda>j. first_track t_offset t_pitch start + (i0 + int j * k) * t_pitch)
                            [0..<nat n_pins]))"
proof -
  define p0 where "p0 = first_track t_offset t_pitch start"
  define tracks where "tracks = tracks_from t_pitch endp p0"
  define L where "L = int (length tracks)"
  define k where "k = (L - 1) div (n_pins - 1)"
  define needed where "needed = (n_pins - 1) * k + 1"
  define i0 where "i0 = (L - needed) div 2"
  from feasible have kpos: "0 < k" by (simp add: k_def L_def tracks_def p0_def)
  from n have n1: "0 < n_pins - 1" by simp
  have "(n_pins - 1) * k + (L - 1) mod (n_pins - 1) = L - 1"
    unfolding k_def by (rule mult_div_mod_eq)
  moreover from n1 have "0 \<le> (L - 1) mod (n_pins - 1)" by simp
  ultimately have fit: "needed \<le> L" by (simp add: needed_def)
  then have i0: "0 \<le> i0" "2 * i0 \<le> L - needed" "L - needed - 1 \<le> 2 * i0"
    unfolding i0_def by presburger+
  from i0 fit have fit': "i0 + ((n_pins - 1) * k + 1) \<le> int (length tracks)"
    by (simp add: needed_def L_def)
  from n have n1': "1 \<le> n_pins" by simp
  have slice: "py_slice tracks i0 (i0 + ((n_pins - 1) * k + 1)) k
      = map (\<lambda>j. tracks ! nat (i0 + int j * k)) [0..<nat n_pins]"
    using kpos n1' i0(1) fit' by (rule py_slice_window)
  have elem: "tracks ! nat (i0 + int j * k) = p0 + (i0 + int j * k) * t_pitch"
    if j: "j < nat n_pins" for j
  proof -
    from j have "int j \<le> n_pins - 1" by simp
    with kpos have "int j * k \<le> (n_pins - 1) * k" by (simp add: mult_right_mono)
    with fit' have "i0 + int j * k < int (length tracks)" by simp
    moreover from i0(1) kpos have nn: "0 \<le> i0 + int j * k" by simp
    ultimately have "nat (i0 + int j * k) < length tracks" by simp
    from tracks_from_nth [OF pitch this [unfolded tracks_def]] nn
    show ?thesis by (simp add: tracks_def)
  qed
  have "map (\<lambda>j. tracks ! nat (i0 + int j * k)) [0..<nat n_pins]
      = map (\<lambda>j. p0 + (i0 + int j * k) * t_pitch) [0..<nat n_pins]"
    by (rule map_cong) (simp_all add: elem)
  with slice have res: "py_slice tracks i0 (i0 + ((n_pins - 1) * k + 1)) k
      = map (\<lambda>j. p0 + (i0 + int j * k) * t_pitch) [0..<nat n_pins]" by simp
  from pitch have g: "gen_tracks t_offset t_pitch start endp = Some tracks"
    by (simp add: gen_tracks_total tracks_def p0_def)
  from n st have ps: "pick_step tracks n_pins step = Inr k"
    by (simp add: pick_step_def k_def L_def)
  from pitch g ps kpos res
  have "ply_distribute t_offset t_pitch n_pins start endp step
      = Some (Inr (map (\<lambda>j. p0 + (i0 + int j * k) * t_pitch) [0..<nat n_pins]))"
    by (simp add: ply_distribute_def pick_tracks_def Let_def i0_def needed_def L_def)
  with i0 kpos show ?thesis
    unfolding needed_def L_def tracks_def p0_def by blast
qed

text \<open>
  So the result has \<open>n_pins\<close> coordinates, strictly increasing, all below \<open>endp\<close>
  and above \<open>start - t_pitch\<close>; the sum of its first and last coordinate is below
  \<open>start + endp\<close> by less than three pitches.  When \<open>start\<close> is on the routing grid,
  all coordinates are in the interval, and the middle of the window is within one pitch
  of the middle of the interval.
\<close>

lemma ply_distribute_computed_step:
  fixes n_pins :: int
  assumes pitch: "0 < t_pitch" and n: "2 \<le> n_pins" and st: "step \<le> 0"
    and feasible: "0 < (int (length (tracks_from t_pitch endp (first_track t_offset t_pitch start))) - 1)
                         div (n_pins - 1)"
  shows "\<exists>r. ply_distribute t_offset t_pitch n_pins start endp step = Some (Inr r) \<and>
           int (length r) = n_pins \<and> sorted_wrt (<) r \<and>
           (\<forall>c \<in> set r. start - t_pitch < c \<and> c < endp) \<and>
           0 < (start + endp) - (hd r + last r) \<and>
           (start + endp) - (hd r + last r) < 3 * t_pitch \<and>
           ((start - t_offset) mod t_pitch = 0 \<longrightarrow>
              (\<forall>c \<in> set r. start \<le> c) \<and> (start + endp) - (hd r + last r) \<le> 2 * t_pitch)"
proof -
  define p0 where "p0 = first_track t_offset t_pitch start"
  define tracks where "tracks = tracks_from t_pitch endp p0"
  define L where "L = int (length tracks)"
  from computed_step_window [OF assms] obtain i0 k where i0: "0 \<le> i0" and k: "0 < k"
    and lo: "L - ((n_pins - 1) * k + 1) - 1 \<le> 2 * i0"
    and hi: "2 * i0 \<le> L - ((n_pins - 1) * k + 1)"
    and res: "ply_distribute t_offset t_pitch n_pins start endp step
             = Some (Inr (map (\<lambda>j. p0 + (i0 + int j * k) * t_pitch) [0..<nat n_pins]))"
    unfolding L_def tracks_def p0_def by blast
  define f where "f = (\<lambda>j. p0 + (i0 + int j * k) * t_pitch)"
  define r where "r = map f [0..<nat n_pins]"
  define M where "M = i0 + (n_pins - 1) * k"
  from res have res': "ply_distribute t_offset t_pitch n_pins start endp step = Some (Inr r)"
    by (simp add: r_def f_def)
  from n have len: "int (length r) = n_pins" by (simp add: r_def)
  have mono: "f i < f j" if "i < j" for i j
  proof -
    from that k have "int i * k < int j * k" by simp
    with pitch have "(i0 + int i * k) * t_pitch < (i0 + int j * k) * t_pitch" by simp
    then show ?thesis by (simp add: f_def)
  qed
  have "sorted_wrt (\<lambda>i j. f i < f j) [0..<nat n_pins]"
    by (rule sorted_wrt_mono_rel [of _ "(<)"]) (simp_all add: mono)
  then have sorted: "sorted_wrt (<) r" by (simp add: r_def sorted_wrt_map)
  from i0 hi have Mtop: "M \<le> L - 1" by (simp add: M_def)
  from n k i0 have M0: "0 \<le> M" by (simp add: M_def)
  from Mtop M0 have Lpos: "0 < L" by simp
  then have "nat (L - 1) < length tracks" unfolding L_def by linarith
  then have "tracks ! nat (L - 1) \<in> set tracks" by (rule nth_mem)
  moreover from tracks_from_nth [OF pitch \<open>nat (L - 1) < length tracks\<close> [unfolded tracks_def]] Lpos
  have "tracks ! nat (L - 1) = p0 + (L - 1) * t_pitch" by (simp add: tracks_def)
  ultimately have top: "p0 + (L - 1) * t_pitch < endp"
    using tracks_from_below [of _ t_pitch endp p0] by (simp add: tracks_def)
  from tracks_from_reach [OF pitch, of endp p0] have reach: "endp \<le> p0 + L * t_pitch"
    by (simp add: L_def tracks_def)
  have p0le: "p0 \<le> start" unfolding p0_def using pitch by (rule first_track_bounds(1))
  have p0gt: "start < p0 + t_pitch" unfolding p0_def using pitch by (rule first_track_bounds(2))
  have aligned: "p0 = start" if "(start - t_offset) mod t_pitch = 0"
    unfolding p0_def using pitch that by (rule first_track_bounds(3))
  have idx: "0 \<le> i0 + int j * k \<and> i0 + int j * k \<le> M" if "j < nat n_pins" for j
  proof -
    from that have "int j \<le> n_pins - 1" by simp
    with k have "int j * k \<le> (n_pins - 1) * k" by (simp add: mult_right_mono)
    with i0 k show ?thesis by (simp add: M_def)
  qed
  have elem: "p0 \<le> c \<and> c < endp" if "c \<in> set r" for c
  proof -
    from that obtain j where j: "j < nat n_pins" and c: "c = f j" by (auto simp add: r_def)
    from idx [OF j] Mtop have a: "0 \<le> i0 + int j * k" and b: "i0 + int j * k \<le> L - 1" by simp_all
    from a pitch have "0 \<le> (i0 + int j * k) * t_pitch" by simp
    moreover from b pitch have "(i0 + int j * k) * t_pitch \<le> (L - 1) * t_pitch"
      by (simp add: mult_right_mono)
    ultimately show ?thesis using c top by (simp add: f_def)
  qed
  from n have ne: "[0..<nat n_pins] \<noteq> []" by simp
  from n have hd_r: "hd r = p0 + i0 * t_pitch"
    by (simp add: r_def f_def hd_map)
  from n ne have last_r: "last r = p0 + M * t_pitch"
    by (simp add: r_def f_def last_map M_def nat_diff_distrib int_ops)
  define B where "B = (i0 + M) * t_pitch"
  define A where "A = L * t_pitch"
  have sum: "hd r + last r = 2 * p0 + B"
    by (simp add: hd_r last_r B_def algebra_simps)
  from hi have "i0 + M \<le> L - 1" by (simp add: M_def)
  with pitch have "(i0 + M) * t_pitch \<le> (L - 1) * t_pitch" by (simp add: mult_right_mono)
  then have Bhi: "B \<le> A - t_pitch" by (simp add: A_def B_def algebra_simps)
  from lo have "L - 2 \<le> i0 + M" by (simp add: M_def)
  with pitch have "(L - 2) * t_pitch \<le> (i0 + M) * t_pitch" by (simp add: mult_right_mono)
  then have Blo: "A - 2 * t_pitch \<le> B" by (simp add: A_def B_def algebra_simps)
  from top have top': "p0 + A - t_pitch < endp" by (simp add: A_def algebra_simps)
  from reach have reach': "endp \<le> p0 + A" by (simp add: A_def)
  have s1: "0 < (start + endp) - (hd r + last r)"
    using sum Bhi top' p0le by linarith
  have s2: "(start + endp) - (hd r + last r) < 3 * t_pitch"
    using sum Blo reach' p0gt by linarith
  have s3: "(\<forall>c \<in> set r. start \<le> c) \<and> (start + endp) - (hd r + last r) \<le> 2 * t_pitch"
    if "(start - t_offset) mod t_pitch = 0"
  proof -
    from aligned [OF that] have eq: "p0 = start" .
    with elem have "\<forall>c \<in> set r. start \<le> c" by simp
    moreover have "(start + endp) - (hd r + last r) \<le> 2 * t_pitch"
      using sum Blo reach' eq by linarith
    ultimately show ?thesis by simp
  qed
  have bounds: "\<forall>c \<in> set r. start - t_pitch < c \<and> c < endp"
  proof
    fix c assume "c \<in> set r"
    from elem [OF this] p0gt show "start - t_pitch < c \<and> c < endp" by linarith
  qed
  from res' len sorted bounds s1 s2 s3 show ?thesis by blast
qed

section \<open>Modules with a fixed row only\<close>

text \<open>A module with a fixed \<open>y\<close> and no \<open>x\<close> is never placed: the run ends with
  \<open>NameError\<close> when a site is suitable, and with the placement error when none is.\<close>

lemma place_module_fixed_row:
  assumes "pos_x m = None" and "pos_y m = Some y"
  shows "place_module gx gy s m = Inl NameError \<or>
         place_module gx gy s m = Inl (CouldNotPlace (name m))"
  using assms
  by (simp add: place_module_def find_x_for_module_def split: option.splits)

end
